theory Spec2Isabelle
  imports Complex_Main "HOL-Library.Word"
begin

unbundle bit_operations_syntax

section \<open>The query-generation engine of dnspyre (pkg/dnsbench/benchmark.go)\<close>

text \<open>
  The development embeds \<^verbatim>\<open>pkg/dnsbench/benchmark.go\<close>: the validation of a
  \<^verbatim>\<open>Benchmark\<close> (\<^verbatim>\<open>init\<close>, \<^verbatim>\<open>parseRequestDelay\<close>), the question loader
  (\<^verbatim>\<open>prepareQuestions\<close>), the construction of a request, the telemetry tap
  (\<^verbatim>\<open>measureProm\<close>) and the worker loop of \<^verbatim>\<open>Run\<close>.

  Conventions. Go's \<^verbatim>\<open>int64\<close> and \<^verbatim>\<open>time.Duration\<close> values are modelled as \<open>int\<close>
  (nanoseconds for durations and clock readings); the only arithmetic the modelled code
  does on them is a comparison, the subtraction of two positive durations and the
  addition of a timeout to a clock reading, so no wrap-around is reachable in what
  is modelled except where said. \<^verbatim>\<open>uint16\<close> values are \<open>16 word\<close>, bytes are
  \<open>8 word\<close>, a Go string is a list of bytes (\<open>string\<close>). An error return is the left
  injection of a sum, a panic is a separate outcome of the worker. What the code
  obtains from outside (the clock, the shared context, the transport, the rate
  limiters, the HTTP client, the process-global random source) is an explicit
  argument; functions of the Go standard library and of miekg/dns the code calls
  are written out where a claim depends on what they compute and are arguments
  otherwise.
\<close>

subsection \<open>Strings and numbers of the Go standard library\<close>

type_synonym time = int

text \<open>\<^verbatim>\<open>strings.HasPrefix\<close> and \<^verbatim>\<open>strings.TrimPrefix\<close>.\<close>

definition HasPrefix :: "string \<Rightarrow> string \<Rightarrow> bool" where
  "HasPrefix s p = (take (length p) s = p)"

definition TrimPrefix :: "string \<Rightarrow> string \<Rightarrow> string" where
  "TrimPrefix s p = (if HasPrefix s p then drop (length p) s else s)"

text \<open>
  \<^verbatim>\<open>strings.Split(s, sep)\<close> for a separator of one byte (the code splits on
  \<^verbatim>\<open>":"\<close>): the pieces between the separators, one piece more than there are
  separators, so the empty string gives one empty piece.
\<close>

fun Split :: "string \<Rightarrow> char \<Rightarrow> string list" where
  "Split [] sep = [[]]"
| "Split (c # s) sep =
     (if c = sep then [] # Split s sep
      else (case Split s sep of
              [] \<Rightarrow> [[c]]
            | w # ws \<Rightarrow> (c # w) # ws))"

definition isDigit :: "char \<Rightarrow> bool" where
  "isDigit c = (let n = (of_char c :: nat) in 48 \<le> n \<and> n \<le> 57)"

definition digitVal :: "char \<Rightarrow> nat" where
  "digitVal c = of_char c - 48"

datatype error =
    ErrServerEmpty
  | ErrURLParse
  | ErrNumberAndDuration
  | ErrEdns0Range
  | ErrEdnsOptFormat
  | ErrEdnsOptNotHex
  | ErrEdnsOptNotDecimal
  | ErrDelayFormat string
  | ErrDelayInterval string
  | ErrDurationInvalid string
  | ErrDurationMissingUnit string
  | ErrDurationUnknownUnit string
  | ErrSyntax
  | ErrRange
  | ErrInvalidByte char
  | ErrLength
  | ErrDownload string
  | ErrDownloadStatus string int
  | ErrOpenLog
  | ErrContext
  | ErrQuery string

text \<open>
  \<^verbatim>\<open>strconv.ParseUint(s, 10, 16)\<close>. With the base given as 10 there is no prefix, no
  sign and no underscore: the empty string and any byte that is not a decimal digit
  are \<^verbatim>\<open>ErrSyntax\<close>, and the value is checked against \<^verbatim>\<open>1<<16 - 1\<close> after
  every digit (\<^verbatim>\<open>ErrRange\<close>). The accumulator never exceeds 65535, so the 64-bit
  cutoff test of the library is never the one that fires.
\<close>

fun ParseUint_loop :: "nat \<Rightarrow> string \<Rightarrow> error + nat" where
  "ParseUint_loop n [] = Inr n"
| "ParseUint_loop n (c # s) =
     (if \<not> isDigit c then Inl ErrSyntax
      else let n1 = n * 10 + digitVal c in
           if n1 > 65535 then Inl ErrRange else ParseUint_loop n1 s)"

definition ParseUint :: "string \<Rightarrow> error + nat" where
  "ParseUint s = (if s = [] then Inl ErrSyntax else ParseUint_loop 0 s)"

text \<open>
  \<^verbatim>\<open>encoding/hex\<close>: \<^verbatim>\<open>fromHexChar\<close> and \<^verbatim>\<open>DecodeString\<close>. The latter returns the
  bytes decoded before the first error together with the error: an invalid byte in
  a pair, or \<^verbatim>\<open>ErrLength\<close> for an odd number of digits (after the last byte has
  been checked).
\<close>

definition fromHexChar :: "char \<Rightarrow> 8 word option" where
  "fromHexChar c =
     (let n = (of_char c :: nat) in
      if 48 \<le> n \<and> n \<le> 57 then Some (of_nat (n - 48))
      else if 97 \<le> n \<and> n \<le> 102 then Some (of_nat (n - 97 + 10))
      else if 65 \<le> n \<and> n \<le> 70 then Some (of_nat (n - 65 + 10))
      else None)"

fun DecodeString :: "string \<Rightarrow> 8 word list \<times> error option" where
  "DecodeString [] = ([], None)"
| "DecodeString [p] =
     (case fromHexChar p of
        None \<Rightarrow> ([], Some (ErrInvalidByte p))
      | Some a \<Rightarrow> ([], Some ErrLength))"
| "DecodeString (p # q # s) =
     (case fromHexChar p of
        None \<Rightarrow> ([], Some (ErrInvalidByte p))
      | Some a \<Rightarrow>
          (case fromHexChar q of
             None \<Rightarrow> ([], Some (ErrInvalidByte q))
           | Some b \<Rightarrow>
               (case DecodeString s of
                  (bs, e) \<Rightarrow> ((push_bit 4 a OR b) # bs, e))))"

text \<open>
  \<^verbatim>\<open>time.ParseDuration\<close>, on the strings the code passes to it: a run of digits
  followed by a unit (the two groups of the delay expression have this shape, so
  there is no sign, no fraction and one component only; a string with a second
  component is outside this fragment and is reported as invalid here).
  \<^verbatim>\<open>leadingInt\<close> reads the digits and fails beyond \<^verbatim>\<open>1<<63\<close>; the unit is looked up
  in \<^verbatim>\<open>unitMap\<close>, which knows ns, us, ms, s, m and h (and two spellings of the
  micro sign, which are not ASCII and are left out); the product must not exceed
  \<^verbatim>\<open>1<<63 - 1\<close>.
\<close>

fun leadingInt :: "nat \<Rightarrow> string \<Rightarrow> (nat \<times> string) option" where
  "leadingInt x [] = Some (x, [])"
| "leadingInt x (c # s) =
     (if isDigit c then
        (if x > 2 ^ 63 div 10 then None
         else let x1 = x * 10 + digitVal c in
              if x1 > 2 ^ 63 then None else leadingInt x1 s)
      else Some (x, c # s))"

definition unitMap :: "string \<Rightarrow> nat option" where
  "unitMap u =
     (if u = ''ns'' then Some 1
      else if u = ''us'' then Some 1000
      else if u = ''ms'' then Some 1000000
      else if u = ''s'' then Some 1000000000
      else if u = ''m'' then Some 60000000000
      else if u = ''h'' then Some 3600000000000
      else None)"

definition ParseDuration :: "string \<Rightarrow> error + time" where
  "ParseDuration s =
     (if s = [] then Inl (ErrDurationInvalid s)
      else if \<not> (hd s = CHR ''.'' \<or> isDigit (hd s)) then Inl (ErrDurationInvalid s)
      else (case leadingInt 0 s of
        None \<Rightarrow> Inl (ErrDurationInvalid s)
      | Some (v, r) \<Rightarrow>
          if length r = length s then Inl (ErrDurationInvalid s)
          else if r = [] then Inl (ErrDurationMissingUnit s)
          else if list_ex (\<lambda>c. c = CHR ''.'' \<or> isDigit c) r then Inl (ErrDurationInvalid s)
          else (case unitMap r of
            None \<Rightarrow> Inl (ErrDurationUnknownUnit s)
          | Some u \<Rightarrow>
              if v > 2 ^ 63 div u then Inl (ErrDurationInvalid s)
              else if v * u > 2 ^ 63 - 1 then Inl (ErrDurationInvalid s)
              else Inr (int (v * u)))))"

text \<open>
  The compiled expression
  \<^verbatim>\<open>^(\d+(?:ms|ns|[smhdw]))(?:-(\d+(?:ms|ns|[smhdw])))?$\<close> and its
  \<^verbatim>\<open>FindStringSubmatch\<close>: no match is the empty list, a match is the whole string
  and the two groups, the second empty when the optional part is absent. A digit run
  is followed by a byte that is not a digit, so \<^verbatim>\<open>\d+\<close> takes the whole run; the
  alternatives of the unit are tried in order, and giving up \<^verbatim>\<open>ms\<close> for \<^verbatim>\<open>m\<close>
  leaves an \<^verbatim>\<open>s\<close> where only \<^verbatim>\<open>-\<close> or the end can follow, so the first alternative
  that applies is the only one that can lead to a match.
\<close>

definition matchUnit :: "string \<Rightarrow> (string \<times> string) option" where
  "matchUnit s =
     (if HasPrefix s ''ms'' then Some (''ms'', drop 2 s)
      else if HasPrefix s ''ns'' then Some (''ns'', drop 2 s)
      else (case s of
        [] \<Rightarrow> None
      | c # r \<Rightarrow> if c \<in> set ''smhdw'' then Some ([c], r) else None))"

definition matchDuration :: "string \<Rightarrow> (string \<times> string) option" where
  "matchDuration s =
     (let ds = takeWhile isDigit s; r = dropWhile isDigit s in
      if ds = [] then None
      else (case matchUnit r of
        None \<Rightarrow> None
      | Some (u, r1) \<Rightarrow> Some (ds @ u, r1)))"

definition FindStringSubmatch :: "string \<Rightarrow> string list" where
  "FindStringSubmatch s =
     (case matchDuration s of
        None \<Rightarrow> []
      | Some (g1, r) \<Rightarrow>
          (case r of
             [] \<Rightarrow> [s, g1, []]
           | c # r1 \<Rightarrow>
               if c = CHR ''-'' then
                 (case matchDuration r1 of
                    None \<Rightarrow> []
                  | Some (g2, r2) \<Rightarrow> if r2 = [] then [s, g1, g2] else [])
               else []))"

subsection \<open>DNS messages (miekg/dns)\<close>

text \<open>
  The part of \<^verbatim>\<open>dns.Msg\<close> the code reads and writes: the identifier, the RD flag and
  the response code of the header, the question section and the additional section.
  An \<^verbatim>\<open>OPT\<close> pseudo-record carries the UDP buffer size (its class field), the DO
  bit (in its TTL field) and its options; the code adds options of the kind
  \<^verbatim>\<open>EDNS0_LOCAL\<close> only.
\<close>

record dns_Question =
  Name :: string
  Qtype :: "16 word"
  Qclass :: "16 word"

record EDNS0_LOCAL =
  Code :: "16 word"
  Data :: "8 word list"

record OPT =
  UDPSize :: "16 word"
  Do :: bool
  Option :: "EDNS0_LOCAL list"

datatype RR = RR_OPT OPT | RR_other "16 word"

record dns_Msg =
  Id_m :: "16 word"
  RecursionDesired :: bool
  Rcode :: int
  Question :: "dns_Question list"
  Extra :: "RR list"

definition ClassINET :: "16 word" where
  "ClassINET = 1"

text \<open>
  \<^verbatim>\<open>Msg.SetEdns0(udpsize, do)\<close> appends a new \<^verbatim>\<open>OPT\<close> to the additional section;
  \<^verbatim>\<open>Msg.IsEdns0()\<close> searches that section from its end and returns a pointer to the
  last \<^verbatim>\<open>OPT\<close>, or nil. The pointer is the index of the record.
\<close>

definition SetEdns0 :: "dns_Msg \<Rightarrow> 16 word \<Rightarrow> bool \<Rightarrow> dns_Msg" where
  "SetEdns0 m udpsize d =
     m\<lparr>Extra := Extra m @ [RR_OPT \<lparr>UDPSize = udpsize, Do = d, Option = []\<rparr>]\<rparr>"

fun lastOPT :: "RR list \<Rightarrow> nat option" where
  "lastOPT [] = None"
| "lastOPT (r # rs) =
     (case lastOPT rs of
        Some i \<Rightarrow> Some (Suc i)
      | None \<Rightarrow> (case r of RR_OPT opt \<Rightarrow> Some 0 | RR_other t \<Rightarrow> None))"

definition IsEdns0 :: "dns_Msg \<Rightarrow> nat option" where
  "IsEdns0 m = lastOPT (Extra m)"

text \<open>An assignment through the pointer \<^verbatim>\<open>IsEdns0\<close> returned.\<close>

definition updOPT :: "dns_Msg \<Rightarrow> nat \<Rightarrow> (OPT \<Rightarrow> OPT) \<Rightarrow> dns_Msg" where
  "updOPT m i f =
     m\<lparr>Extra := (Extra m)[i := (case Extra m ! i of RR_OPT opt \<Rightarrow> RR_OPT (f opt) | RR_other t \<Rightarrow> RR_other t)]\<rparr>"

text \<open>The \<^verbatim>\<open>OPT\<close> record of a message, read through the same pointer.\<close>

definition theOPT :: "dns_Msg \<Rightarrow> OPT option" where
  "theOPT m =
     (case IsEdns0 m of
        None \<Rightarrow> None
      | Some i \<Rightarrow> (case Extra m ! i of RR_OPT opt \<Rightarrow> Some opt | RR_other t \<Rightarrow> None))"

text \<open>
  \<^verbatim>\<open>dns.Fqdn\<close> and \<^verbatim>\<open>dns.IsFqdn\<close>: a name is fully qualified when it ends in a dot
  that is not escaped, that is, preceded by an even number of backslashes.
\<close>

definition IsFqdn :: "string \<Rightarrow> bool" where
  "IsFqdn s =
     (if s = [] \<or> last s \<noteq> CHR ''.'' then False
      else even (length (takeWhile (\<lambda>c. c = CHR 0x5C) (rev (butlast s)))))"

definition Fqdn :: "string \<Rightarrow> string" where
  "Fqdn s = (if IsFqdn s then s else s @ ''.'')"

subsection \<open>The benchmark and what it takes from outside\<close>

text \<open>
  The fields of \<^verbatim>\<open>Benchmark\<close> that the modelled functions read or write. The last
  four are the unexported ones, zero in a value built outside the package. The
  fields that only steer printing, plots and the progress bar are left out.
\<close>

record Benchmark =
  Server :: string
  Types :: "string list"
  Count :: int
  Duration :: time
  Concurrency :: nat
  Rate :: int
  RateLimitWorker :: int
  Recurse :: bool
  Probability :: rat
  EdnsOpt :: string
  DNSSEC :: bool
  Edns0 :: "16 word"
  DOT :: bool
  RequestTimeout :: time
  HistMax :: time
  Queries :: "string list"
  RequestLogEnabled :: bool
  RequestLogPath :: string
  RequestDelay :: string
  PrometheusMetricsAddr :: string
  useDoH :: bool
  useQuic :: bool
  requestDelayStart :: time
  requestDelayEnd :: time

definition DefaultEdns0BufferSize :: "16 word" where
  "DefaultEdns0BufferSize = 1232"

definition DefaultRequestLogPath :: string where
  "DefaultRequestLogPath = ''requests.log''"

text \<open>
  A private generator \<^verbatim>\<open>rand.New(rand.NewSource(seed))\<close> is deterministic: its state
  is given by the seed and the number of values drawn so far.
\<close>

datatype rand = Rand (seed: int) (drawn: nat)

definition rand_New :: "int \<Rightarrow> rand" where
  "rand_New sd = Rand sd 0"

text \<open>
  Library functions the code calls and no claim depends on, as arguments:
  \<^verbatim>\<open>url.Parse\<close> (the path of the parsed URL, or an error), whether
  \<^verbatim>\<open>net.SplitHostPort\<close> fails, the tables \<^verbatim>\<open>dns.StringToType\<close>,
  \<^verbatim>\<open>dns.TypeToString\<close> and \<^verbatim>\<open>dns.RcodeToString\<close>, and the two methods of a private
  generator the code uses, each returning the value drawn and the generator after
  the draw.
\<close>

record lib =
  url_Parse :: "string \<Rightarrow> string option"
  SplitHostPort_fails :: "string \<Rightarrow> bool"
  StringToType :: "string \<Rightarrow> 16 word"
  TypeToString :: "16 word \<Rightarrow> string"
  RcodeToString :: "int \<Rightarrow> string"
  Float64 :: "rand \<Rightarrow> rat \<times> rand"
  Int63n :: "rand \<Rightarrow> int \<Rightarrow> int \<times> rand"

text \<open>\<^verbatim>\<open>net.JoinHostPort\<close>: a host with a colon is put in brackets.\<close>

definition JoinHostPort :: "string \<Rightarrow> string \<Rightarrow> string" where
  "JoinHostPort host port =
     (if CHR '':'' \<in> set host then ''['' @ host @ '']:'' @ port else host @ '':'' @ port)"

subsection \<open>Validation and normalisation: \<^verbatim>\<open>init\<close>\<close>

definition isHTTPUrl :: "string \<Rightarrow> bool \<times> string" where
  "isHTTPUrl s =
     (if HasPrefix s ''http://'' then (True, ''http'')
      else if HasPrefix s ''https://'' then (True, ''https'')
      else (False, []))"

definition addPortIfMissing :: "lib \<Rightarrow> Benchmark \<Rightarrow> Benchmark" where
  "addPortIfMissing L b =
     (if useDoH b then b
      else if SplitHostPort_fails L (Server b) then
        (if DOT b then b\<lparr>Server := JoinHostPort (Server b) ''853''\<rparr>
         else if useQuic b then b\<lparr>Server := JoinHostPort (Server b) ''853''\<rparr>
         else b\<lparr>Server := JoinHostPort (Server b) ''53''\<rparr>)
      else b)"

text \<open>
  Lines 271 to 284 of \<^verbatim>\<open>init\<close>, the check of a non-empty \<^verbatim>\<open>EdnsOpt\<close>: the error
  returned, or \<open>None\<close> when the option passes.
\<close>

definition checkEdnsOpt :: "string \<Rightarrow> error option" where
  "checkEdnsOpt opt =
     (let split = Split opt (CHR '':'') in
      if length split \<noteq> 2 then Some ErrEdnsOptFormat
      else if snd (DecodeString (split ! 1)) \<noteq> None then Some ErrEdnsOptNotHex
      else (case ParseUint (split ! 0) of
              Inl e \<Rightarrow> Some ErrEdnsOptNotDecimal
            | Inr code \<Rightarrow> None))"

definition parseRequestDelay :: "Benchmark \<Rightarrow> error + Benchmark" where
  "parseRequestDelay b =
     (if RequestDelay b = [] then Inr b
      else let durations = FindStringSubmatch (RequestDelay b) in
        if length durations \<noteq> 3 then Inl (ErrDelayFormat (RequestDelay b))
        else (case (if durations ! 1 \<noteq> [] then
                      (case ParseDuration (durations ! 1) of
                         Inl e \<Rightarrow> Inl e
                       | Inr durationStart \<Rightarrow> Inr (b\<lparr>requestDelayStart := durationStart\<rparr>))
                    else Inr b) of
                Inl e \<Rightarrow> Inl e
              | Inr b1 \<Rightarrow>
                 (case (if durations ! 2 \<noteq> [] then
                          (case ParseDuration (durations ! 2) of
                             Inl e \<Rightarrow> Inl e
                           | Inr durationEnd \<Rightarrow> Inr (b1\<lparr>requestDelayEnd := durationEnd\<rparr>))
                        else Inr b1) of
                    Inl e \<Rightarrow> Inl e
                  | Inr b2 \<Rightarrow>
                      if requestDelayEnd b2 > 0 \<and> requestDelayStart b2 > 0
                           \<and> requestDelayEnd b2 - requestDelayStart b2 \<le> 0
                      then Inl (ErrDelayInterval (RequestDelay b))
                      else Inr b2)))"

text \<open>
  \<^verbatim>\<open>init\<close> in four stages, in the order of the source: the server (lines 233 to
  253), the count and the duration (lines 255 to 261), the histogram bound and the
  EDNS settings (lines 263 to 284), the request log and the delay (lines 286 to
  294). The default writer is not modelled.
\<close>

definition init_server :: "lib \<Rightarrow> Benchmark \<Rightarrow> error + Benchmark" where
  "init_server L b =
     (if length (Server b) = 0 then Inl ErrServerEmpty
      else let b1 = b\<lparr>useDoH := fst (isHTTPUrl (Server b))\<rparr>;
               b2 = b1\<lparr>useQuic := HasPrefix (Server b1) ''quic://''\<rparr>;
               b3 = (if useQuic b2 then b2\<lparr>Server := TrimPrefix (Server b2) ''quic://''\<rparr> else b2)
           in if useDoH b3 then
                (case url_Parse L (Server b3) of
                   None \<Rightarrow> Inl ErrURLParse
                 | Some path \<Rightarrow>
                     Inr (addPortIfMissing L
                            (if length path = 0 then b3\<lparr>Server := Server b3 @ ''/dns-query''\<rparr> else b3)))
              else Inr (addPortIfMissing L b3))"

definition init_count :: "Benchmark \<Rightarrow> error + Benchmark" where
  "init_count b =
     (let b1 = (if Count b = 0 \<and> Duration b = 0 then b\<lparr>Count := 1\<rparr> else b) in
      if Duration b1 > 0 \<and> Count b1 > 0 then Inl ErrNumberAndDuration else Inr b1)"

definition init_edns :: "Benchmark \<Rightarrow> error + Benchmark" where
  "init_edns b =
     (let b1 = (if HistMax b = 0 then b\<lparr>HistMax := RequestTimeout b\<rparr> else b) in
      if Edns0 b1 \<noteq> 0 \<and> (Edns0 b1 < 512 \<or> Edns0 b1 > 4096) then Inl ErrEdns0Range
      else if length (EdnsOpt b1) \<noteq> 0 then
        (case checkEdnsOpt (EdnsOpt b1) of Some e \<Rightarrow> Inl e | None \<Rightarrow> Inr b1)
      else Inr b1)"

definition init_delay :: "Benchmark \<Rightarrow> error + Benchmark" where
  "init_delay b =
     parseRequestDelay
       (if RequestLogEnabled b \<and> length (RequestLogPath b) = 0
        then b\<lparr>RequestLogPath := DefaultRequestLogPath\<rparr> else b)"

definition init :: "lib \<Rightarrow> Benchmark \<Rightarrow> error + Benchmark" where
  "init L b =
     (case init_server L b of
        Inl e \<Rightarrow> Inl e
      | Inr b1 \<Rightarrow>
          (case init_count b1 of
             Inl e \<Rightarrow> Inl e
           | Inr b2 \<Rightarrow>
               (case init_edns b2 of
                  Inl e \<Rightarrow> Inl e
                | Inr b3 \<Rightarrow> init_delay b3)))"

subsection \<open>The question loader: \<^verbatim>\<open>prepareQuestions\<close>\<close>

text \<open>
  \<^verbatim>\<open>bufio.Scanner\<close> with its default split function \<^verbatim>\<open>ScanLines\<close>: the body is cut
  at every line feed, a last piece without a line feed is a line when it is not
  empty, and one trailing carriage return is dropped from every line. An empty line
  is a token like any other. The buffer of a scanner holds at most
  \<^verbatim>\<open>MaxScanTokenSize\<close> bytes: at a line of that many bytes or more \<^verbatim>\<open>Scan\<close>
  returns false and the lines after it are never seen (the code does not look at
  \<^verbatim>\<open>scanner.Err()\<close>).
\<close>

definition MaxScanTokenSize :: nat where
  "MaxScanTokenSize = 65536"

definition dropCR :: "string \<Rightarrow> string" where
  "dropCR l = (if l \<noteq> [] \<and> last l = CHR 0x0D then butlast l else l)"

definition rawLines :: "string \<Rightarrow> string list" where
  "rawLines body =
     (let pieces = Split body (CHR 0x0A) in
      if last pieces = [] then butlast pieces else pieces)"

definition ScanLines :: "string \<Rightarrow> string list" where
  "ScanLines body = map dropCR (takeWhile (\<lambda>l. length l < MaxScanTokenSize) (rawLines body))"

text \<open>
  What \<^verbatim>\<open>client.Get\<close> answers for the entry at a position of \<^verbatim>\<open>Queries\<close>: an
  error (\<open>None\<close>), or the status code and the body. The loop of
  \<^verbatim>\<open>prepareQuestions\<close> appends to \<^verbatim>\<open>questions\<close>; an error ends it.
\<close>

type_synonym http = "nat \<Rightarrow> string \<Rightarrow> (int \<times> string) option"

fun prepareQuestions_loop :: "http \<Rightarrow> nat \<Rightarrow> string list \<Rightarrow> string list \<Rightarrow> error + string list" where
  "prepareQuestions_loop get i [] questions = Inr questions"
| "prepareQuestions_loop get i (q # qs) questions =
     (if fst (isHTTPUrl q) then
        (case get i q of
           None \<Rightarrow> Inl (ErrDownload q)
         | Some (status, body) \<Rightarrow>
             if status < 200 \<or> status > 299 then Inl (ErrDownloadStatus q status)
             else prepareQuestions_loop get (Suc i) qs (questions @ map Fqdn (ScanLines body)))
      else prepareQuestions_loop get (Suc i) qs (questions @ [Fqdn q]))"

definition prepareQuestions :: "http \<Rightarrow> Benchmark \<Rightarrow> error + string list" where
  "prepareQuestions get b = prepareQuestions_loop get 0 (Queries b) []"

subsection \<open>Building a request (lines 444 to 471 of \<^verbatim>\<open>Run\<close>) and \<^verbatim>\<open>addEdnsOpt\<close>\<close>

text \<open>
  \<^verbatim>\<open>addEdnsOpt\<close> indexes the two halves of the option without a check, which
  panics (\<open>None\<close>) when there is no colon; the errors of the two conversions are
  dropped, and then \<^verbatim>\<open>ParseUint\<close> has returned 0 for a syntax error and the largest
  value for a range error.
\<close>

definition addEdnsOpt :: "dns_Msg \<Rightarrow> string \<Rightarrow> dns_Msg option" where
  "addEdnsOpt m ednsOpt =
     (let m1 = (case IsEdns0 m of None \<Rightarrow> SetEdns0 m DefaultEdns0BufferSize False | Some i \<Rightarrow> m);
          s = Split ednsOpt (CHR '':'')
      in case IsEdns0 m1 of
           None \<Rightarrow> None
         | Some i \<Rightarrow>
             if length s < 2 then None
             else let data = fst (DecodeString (s ! 1));
                      code = (case ParseUint (s ! 0) of
                                Inr n \<Rightarrow> n
                              | Inl e \<Rightarrow> if e = ErrRange then 65535 else 0)
                  in Some (updOPT m1 i (\<lambda>opt. opt\<lparr>Option := Option opt @ [\<lparr>Code = of_nat code, Data = data\<rparr>]\<rparr>)))"

text \<open>
  The request of one step, for the question \<open>q\<close> and the type \<open>qt\<close>. \<open>intn\<close> is what
  \<^verbatim>\<open>rand.Intn(1 << 16)\<close> returned: the function of the package \<^verbatim>\<open>math/rand\<close>,
  which draws from the source of the process, not from the generator of the worker.
\<close>

definition buildRequest :: "Benchmark \<Rightarrow> nat \<Rightarrow> string \<Rightarrow> 16 word \<Rightarrow> dns_Msg option" where
  "buildRequest b intn q qt =
     (let req = \<lparr>Id_m = 0, RecursionDesired = Recurse b, Rcode = 0,
                 Question = [\<lparr>Name = q, Qtype = qt, Qclass = ClassINET\<rparr>], Extra = []\<rparr>;
          req1 = (if useQuic b then req\<lparr>Id_m := 0\<rparr> else req\<lparr>Id_m := of_nat intn\<rparr>);
          req2 = (if Edns0 b > 0 then SetEdns0 req1 (Edns0 b) False else req1)
      in case (if length (EdnsOpt b) > 0 then addEdnsOpt req2 (EdnsOpt b) else Some req2) of
           None \<Rightarrow> None
         | Some req3 \<Rightarrow>
             if DNSSEC b then
               (let req4 = (case IsEdns0 req3 of
                              None \<Rightarrow> SetEdns0 req3 DefaultEdns0BufferSize False
                            | Some i \<Rightarrow> req3)
                in case IsEdns0 req4 of
                     None \<Rightarrow> None
                   | Some i \<Rightarrow> Some (updOPT req4 i (\<lambda>opt. opt\<lparr>Do := True\<rparr>)))
             else Some req3)"

subsection \<open>The telemetry tap \<^verbatim>\<open>measureProm\<close> and the delay\<close>

text \<open>
  The three collectors are written to only; the model keeps the updates in the
  order they are made. Indexing an empty question section panics: \<open>None\<close>.
\<close>

datatype prom_event =
    ResponseTotal string string
  | ErrorsTotal
  | RequestDuration string time

definition measureProm ::
  "lib \<Rightarrow> Benchmark \<Rightarrow> dns_Msg \<Rightarrow> dns_Msg option \<Rightarrow> time \<Rightarrow> error option \<Rightarrow> prom_event list
     \<Rightarrow> prom_event list option" where
  "measureProm L b req resp dur err evs =
     (if length (PrometheusMetricsAddr b) = 0 then Some evs
      else case (case resp of
                   None \<Rightarrow> Some evs
                 | Some r \<Rightarrow>
                     (case Question r of
                        [] \<Rightarrow> None
                      | rq # rqs \<Rightarrow>
                          Some (evs @ [ResponseTotal (TypeToString L (Qtype rq)) (RcodeToString L (Rcode r))]))) of
             None \<Rightarrow> None
           | Some evs1 \<Rightarrow>
               (let evs2 = (if err \<noteq> None then evs1 @ [ErrorsTotal] else evs1) in
                case Question req of
                  [] \<Rightarrow> None
                | q # qs \<Rightarrow> Some (evs2 @ [RequestDuration (TypeToString L (Qtype q)) dur])))"

text \<open>
  \<^verbatim>\<open>delay\<close>: the duration handed to \<^verbatim>\<open>waitFor\<close>, if any, and the generator after the
  draw. \<^verbatim>\<open>Int63n\<close> panics on an argument that is not positive: \<open>None\<close>.
\<close>

definition delay :: "lib \<Rightarrow> Benchmark \<Rightarrow> rand \<Rightarrow> (time option \<times> rand) option" where
  "delay L b rando =
     (if requestDelayStart b > 0 \<and> requestDelayEnd b > 0 then
        (if requestDelayEnd b - requestDelayStart b \<le> 0 then None
         else (case Int63n L rando (requestDelayEnd b - requestDelayStart b) of
                 (v, rando1) \<Rightarrow> Some (Some (v + requestDelayStart b), rando1)))
      else if requestDelayStart b > 0 then Some (Some (requestDelayStart b), rando)
      else Some (None, rando))"

subsection \<open>Contexts, observations and the state of a worker\<close>

text \<open>
  Of a \<^verbatim>\<open>context.Context\<close> the code reads the deadline (of the context of each
  request), whether \<^verbatim>\<open>Err()\<close> is nil, and the channel \<^verbatim>\<open>Done()\<close> in
  \<^verbatim>\<open>checkLimit\<close> and \<^verbatim>\<open>waitFor\<close>. The deadline is part of the value;
  \<^verbatim>\<open>context.WithTimeout(parent, d)\<close>, called when the clock reads \<open>now\<close>, keeps
  the deadline of the parent when that is the earlier one. What \<^verbatim>\<open>Err()\<close> and the
  race in \<^verbatim>\<open>checkLimit\<close> give is observed, step by step.
\<close>

record Context =
  Deadline :: "time option"

definition WithTimeout :: "Context \<Rightarrow> time \<Rightarrow> time \<Rightarrow> Context" where
  "WithTimeout parent now timeout =
     (let d = now + timeout in
      case Deadline parent of
        None \<Rightarrow> parent\<lparr>Deadline := Some d\<rparr>
      | Some cur \<Rightarrow> if cur < d then parent else parent\<lparr>Deadline := Some d\<rparr>)"

text \<open>
  \<^verbatim>\<open>checkLimit\<close> returns nil when the token arrives first and the error of the
  context when \<^verbatim>\<open>Done()\<close> is the branch the \<^verbatim>\<open>select\<close> takes.
\<close>

definition checkLimit :: "bool \<Rightarrow> error option" where
  "checkLimit doneFirst = (if doneFirst then Some ErrContext else None)"

text \<open>
  What one pass through the innermost loop body observes, in the order of the
  source: line 427 (\<open>ctxErr\<close>), lines 434 and 439 (which branch each
  \<^verbatim>\<open>checkLimit\<close> takes), line 455 (the value of the global \<^verbatim>\<open>rand.Intn\<close>), line
  473 (\<open>startTime\<close>), line 475 (the clock inside \<^verbatim>\<open>context.WithTimeout\<close>), line
  476 (the response and the error of the transport), line 482
  (\<^verbatim>\<open>time.Since(start)\<close>).
\<close>

record obs =
  ctxErr :: bool
  limitDone :: bool
  workerLimitDone :: bool
  globalIntn :: nat
  startTime :: time
  timeoutNow :: time
  queryResp :: "dns_Msg option"
  queryErr :: "error option"
  sinceStart :: time

text \<open>
  Modelled from the spec: the result sink \<^verbatim>\<open>ResultStats\<close> and its \<^verbatim>\<open>record\<close>
  method, which are not in the file; by section 4.F it consumes
  \<^verbatim>\<open>record(request, response-or-null, error-or-null, start, duration)\<close> and is
  opaque to the engine. The sink is the list of what was recorded, oldest first.
\<close>

record result =
  request :: dns_Msg
  response :: "dns_Msg option"
  err :: "error option"
  start :: time
  duration :: time

definition record_result ::
  "result list \<Rightarrow> dns_Msg \<Rightarrow> dns_Msg option \<Rightarrow> error option \<Rightarrow> time \<Rightarrow> time \<Rightarrow> result list" where
  "record_result st rq resp e t dur =
     st @ [\<lparr>request = rq, response = resp, err = e, start = t, duration = dur\<rparr>]"

text \<open>
  The state of a worker: its sink, its private generator, the number of passes
  through the loop body begun so far (the index of the next observation), the
  updates of the collectors, the durations waited, and the arguments of every
  call of \<^verbatim>\<open>logRequest\<close> (worker, request, response, error, duration).
\<close>

record wstate =
  sink :: "result list"
  rando :: rand
  tick :: nat
  prom :: "prom_event list"
  waited :: "time list"
  logged :: "(nat \<times> dns_Msg \<times> dns_Msg option \<times> error option \<times> time) list"

datatype flow = Next wstate | Return wstate | Panic wstate

subsection \<open>The worker: the loop body and the three loops of \<^verbatim>\<open>Run\<close>\<close>

text \<open>
  Lines 444 to 493, entered once the step is not skipped and the limiters have let
  it through: build the request, take the start time, derive the context of the
  request, call the transport, apply the guard of line 478, record, tap, wait.
\<close>

definition dispatch ::
  "lib \<Rightarrow> Benchmark \<Rightarrow> Context \<Rightarrow> nat \<Rightarrow> obs \<Rightarrow> string \<Rightarrow> 16 word \<Rightarrow> wstate \<Rightarrow> flow" where
  "dispatch L b ctx workerID ob q qt st =
     (case buildRequest b (globalIntn ob) q qt of
        None \<Rightarrow> Panic st
      | Some rq \<Rightarrow>
          (let t0 = startTime ob;
               reqTimeoutCtx = WithTimeout ctx (timeoutNow ob) (RequestTimeout b);
               resp = queryResp ob;
               e = queryErr ob
           in if e \<noteq> None \<and> (case Deadline reqTimeoutCtx of None \<Rightarrow> False | Some deadline \<Rightarrow> t0 > deadline)
              then Return st
              else let dur = sinceStart ob;
                       st1 = (if RequestLogEnabled b
                              then st\<lparr>logged := logged st @ [(workerID, rq, resp, e, dur)]\<rparr> else st);
                       st2 = st1\<lparr>sink := record_result (sink st1) rq resp e t0 dur\<rparr>
                   in case measureProm L b rq resp dur e (prom st2) of
                        None \<Rightarrow> Panic st2
                      | Some evs \<Rightarrow>
                          (case delay L b (rando st2) of
                             None \<Rightarrow> Panic (st2\<lparr>prom := evs\<rparr>)
                           | Some (w, g) \<Rightarrow>
                               Next (st2\<lparr>prom := evs, rando := g,
                                         waited := waited st2 @ (case w of None \<Rightarrow> [] | Some d \<Rightarrow> [d])\<rparr>))))"

text \<open>
  Lines 427 to 442 and then \<open>dispatch\<close>: the body of the innermost loop. \<open>Return\<close>
  is the \<^verbatim>\<open>return\<close> of the worker, \<open>Next\<close> goes on with the loops (after
  \<^verbatim>\<open>continue\<close> or at the end of the body). The limiters exist when the rates are
  positive (lines 352 and 418).
\<close>

definition step ::
  "lib \<Rightarrow> Benchmark \<Rightarrow> Context \<Rightarrow> nat \<Rightarrow> obs \<Rightarrow> string \<Rightarrow> 16 word \<Rightarrow> wstate \<Rightarrow> flow" where
  "step L b ctx workerID ob q qt st =
     (if ctxErr ob then Return st
      else case Float64 L (rando st) of
        (u, g) \<Rightarrow>
          (let st1 = st\<lparr>rando := g\<rparr> in
           if u > Probability b then Next st1
           else if Rate b > 0 \<and> checkLimit (limitDone ob) \<noteq> None then Return st1
           else if RateLimitWorker b > 0 \<and> checkLimit (workerLimitDone ob) \<noteq> None then Return st1
           else dispatch L b ctx workerID ob q qt st1))"

text \<open>
  The loop over the types and the loop over the questions. Every pass through the
  body takes the next observation.
\<close>

fun typesLoop ::
  "lib \<Rightarrow> Benchmark \<Rightarrow> Context \<Rightarrow> nat \<Rightarrow> (nat \<Rightarrow> obs) \<Rightarrow> string \<Rightarrow> 16 word list \<Rightarrow> wstate \<Rightarrow> flow" where
  "typesLoop L b ctx workerID env q [] st = Next st"
| "typesLoop L b ctx workerID env q (qt # qTypes) st =
     (case step L b ctx workerID (env (tick st)) q qt (st\<lparr>tick := Suc (tick st)\<rparr>) of
        Next st1 \<Rightarrow> typesLoop L b ctx workerID env q qTypes st1
      | Return st1 \<Rightarrow> Return st1
      | Panic st1 \<Rightarrow> Panic st1)"

fun questionsLoop ::
  "lib \<Rightarrow> Benchmark \<Rightarrow> Context \<Rightarrow> nat \<Rightarrow> (nat \<Rightarrow> obs) \<Rightarrow> string list \<Rightarrow> 16 word list \<Rightarrow> wstate \<Rightarrow> flow" where
  "questionsLoop L b ctx workerID env [] qTypes st = Next st"
| "questionsLoop L b ctx workerID env (q # questions) qTypes st =
     (case typesLoop L b ctx workerID env q qTypes st of
        Next st1 \<Rightarrow> questionsLoop L b ctx workerID env questions qTypes st1
      | Return st1 \<Rightarrow> Return st1
      | Panic st1 \<Rightarrow> Panic st1)"

text \<open>
  The outer loop \<^verbatim>\<open>for i := int64(0); i < b.Count || b.Duration != 0; i++\<close>. It
  has no bound when the duration is not zero, so the model counts the passes it may
  still make: \<open>None\<close> says that the passes allowed did not bring the worker to its
  end. The counter \<open>i\<close> is read in \<^verbatim>\<open>i < b.Count\<close> only, which decides the loop
  only when the duration is zero, and then the loop ends before \<open>i\<close> can overflow.
  The result \<open>Some (Return st)\<close> is the end of the goroutine, by \<^verbatim>\<open>return\<close> or by
  leaving the loop.
\<close>

fun outerLoop ::
  "nat \<Rightarrow> lib \<Rightarrow> Benchmark \<Rightarrow> Context \<Rightarrow> nat \<Rightarrow> (nat \<Rightarrow> obs) \<Rightarrow> string list \<Rightarrow> 16 word list
     \<Rightarrow> int \<Rightarrow> wstate \<Rightarrow> flow option" where
  "outerLoop fuel L b ctx workerID env questions qTypes i st =
     (if i < Count b \<or> Duration b \<noteq> 0 then
        (case fuel of
           0 \<Rightarrow> None
         | Suc fuel1 \<Rightarrow>
             (case questionsLoop L b ctx workerID env questions qTypes st of
                Next st1 \<Rightarrow> outerLoop fuel1 L b ctx workerID env questions qTypes (i + 1) st1
              | Return st1 \<Rightarrow> Some (Return st1)
              | Panic st1 \<Rightarrow> Some (Panic st1)))
      else Some (Return st))"

text \<open>
  What a worker takes from outside: the reading \<^verbatim>\<open>time.Now().UnixNano()\<close> of line
  415 and its observations. The goroutine of lines 408 to 497 seeds its generator
  with that reading and runs the loops on an empty sink.
\<close>

record wenv =
  unixNano :: int
  observe :: "nat \<Rightarrow> obs"

definition worker ::
  "nat \<Rightarrow> lib \<Rightarrow> Benchmark \<Rightarrow> Context \<Rightarrow> string list \<Rightarrow> 16 word list \<Rightarrow> wenv \<Rightarrow> nat \<Rightarrow> flow option" where
  "worker fuel L b ctx questions qTypes we workerID =
     outerLoop fuel L b ctx workerID (observe we) questions qTypes 0
       \<lparr>sink = [], rando = rand_New (unixNano we), tick = 0, prom = [], waited = [], logged = []\<rparr>"

subsection \<open>\<^verbatim>\<open>Run\<close>\<close>

text \<open>
  The surroundings of a run: the HTTP client, whether opening the request log
  fails, the clock when \<^verbatim>\<open>Run\<close> derives the shared context (line 334), and what
  each worker takes from outside. The workers share nothing they write to but the
  collectors, so each is a function of its own observations; \<^verbatim>\<open>wg.Wait()\<close> returns
  when all of them have ended, and a panic in one of them ends the process. The
  Prometheus endpoint, the progress bar and what is printed are not modelled.
\<close>

record world =
  httpGet :: http
  openLogFails :: bool
  runNow :: time
  workerEnv :: "nat \<Rightarrow> wenv"

datatype outcome = Failed error | Stats "result list list" | Crashed | Running

definition sinkOf :: "flow option \<Rightarrow> result list" where
  "sinkOf r = (case r of Some (Return st) \<Rightarrow> sink st | Some (Next st) \<Rightarrow> sink st
               | Some (Panic st) \<Rightarrow> sink st | None \<Rightarrow> [])"

definition isPanic :: "flow option \<Rightarrow> bool" where
  "isPanic r = (case r of Some (Panic st) \<Rightarrow> True | Some (Return st) \<Rightarrow> False
                | Some (Next st) \<Rightarrow> False | None \<Rightarrow> False)"

definition wait :: "flow option list \<Rightarrow> outcome" where
  "wait rs =
     (if list_ex isPanic rs then Crashed
      else if list_ex (\<lambda>r. r = None) rs then Running
      else Stats (map sinkOf rs))"

definition Run :: "nat \<Rightarrow> lib \<Rightarrow> world \<Rightarrow> Context \<Rightarrow> Benchmark \<Rightarrow> outcome" where
  "Run fuel L W ctx b0 =
     (case init L b0 of
        Inl e \<Rightarrow> Failed e
      | Inr b \<Rightarrow>
          if RequestLogEnabled b \<and> openLogFails W then Failed ErrOpenLog
          else (case prepareQuestions (httpGet W) b of
                  Inl e \<Rightarrow> Failed e
                | Inr questions \<Rightarrow>
                    (let ctx1 = (if Duration b \<noteq> 0 then WithTimeout ctx (runNow W) (Duration b) else ctx);
                         qTypes = map (StringToType L) (Types b)
                     in wait (map (\<lambda>w. worker fuel L b ctx1 questions qTypes (workerEnv W w) w)
                                  [0 ..< Concurrency b]))))"

subsection \<open>Vocabulary of the statements\<close>

text \<open>The state a step, a loop or a worker ends in, whichever way it ends.\<close>

fun flowState :: "flow \<Rightarrow> wstate" where
  "flowState (Next st) = st"
| "flowState (Return st) = st"
| "flowState (Panic st) = st"

text \<open>The value of a run of decimal digits, and the hexadecimal digits.\<close>

definition decimalValue :: "string \<Rightarrow> nat" where
  "decimalValue s = foldl (\<lambda>n c. n * 10 + digitVal c) 0 s"

definition isHex :: "char \<Rightarrow> bool" where
  "isHex c = (fromHexChar c \<noteq> None)"

text \<open>
  The additional section of the request a validated benchmark builds: empty, or
  one \<^verbatim>\<open>OPT\<close> record.
\<close>

definition optOf :: "Benchmark \<Rightarrow> RR list" where
  "optOf b =
     (if Edns0 b > 0 \<or> EdnsOpt b \<noteq> [] \<or> DNSSEC b then
        [RR_OPT \<lparr>UDPSize = (if Edns0 b > 0 then Edns0 b else DefaultEdns0BufferSize),
                 Do = DNSSEC b,
                 Option = (if EdnsOpt b \<noteq> [] then
                             [\<lparr>Code = of_nat (decimalValue (Split (EdnsOpt b) (CHR '':'') ! 0)),
                               Data = fst (DecodeString (Split (EdnsOpt b) (CHR '':'') ! 1))\<rparr>]
                           else [])\<rparr>]
      else [])"

text \<open>
  Conditions on what a worker observes. The shared context is never cancelled: no
  check of \<^verbatim>\<open>ctx.Err()\<close> finds an error, no acquire of a limiter is cancelled, and
  no request starts after the deadline of the shared context, if it has one. The
  clock does not run backwards between lines 473 and 475. The telemetry tap is
  defined: the metrics are off, or every response has a question. The delay is
  defined: the interval, if there is one, is not empty.
\<close>

definition neverCancelled :: "Context \<Rightarrow> (nat \<Rightarrow> obs) \<Rightarrow> bool" where
  "neverCancelled ctx env =
     (\<forall>k. \<not> ctxErr (env k) \<and> \<not> limitDone (env k) \<and> \<not> workerLimitDone (env k)
          \<and> (case Deadline ctx of None \<Rightarrow> True | Some d \<Rightarrow> startTime (env k) \<le> d))"

definition clockMonotone :: "(nat \<Rightarrow> obs) \<Rightarrow> bool" where
  "clockMonotone env = (\<forall>k. startTime (env k) \<le> timeoutNow (env k))"

definition tapDefined :: "Benchmark \<Rightarrow> (nat \<Rightarrow> obs) \<Rightarrow> bool" where
  "tapDefined b env =
     (PrometheusMetricsAddr b = []
      \<or> (\<forall>k. case queryResp (env k) of None \<Rightarrow> True | Some r \<Rightarrow> Question r \<noteq> []))"

definition delayDefined :: "Benchmark \<Rightarrow> bool" where
  "delayDefined b =
     (\<not> (requestDelayStart b > 0 \<and> requestDelayEnd b > 0
          \<and> requestDelayEnd b - requestDelayStart b \<le> 0))"

subsection \<open>A concrete run\<close>

text \<open>
  The first scenario of the specification: server 8.8.8.8 over UDP, the question
  example.com, the type A, count 3, concurrency 2, probability 1, no delay; a
  library whose private generator always draws 0; a transport that answers every
  request after 20 ms; a context without a deadline.
\<close>

definition exampleLib :: lib where
  "exampleLib =
     \<lparr>url_Parse = (\<lambda>s. Some []),
      SplitHostPort_fails = (\<lambda>s. CHR '':'' \<notin> set s),
      StringToType = (\<lambda>s. if s = ''A'' then 1 else if s = ''AAAA'' then 28 else 0),
      TypeToString = (\<lambda>t. if t = 1 then ''A'' else if t = 28 then ''AAAA'' else []),
      RcodeToString = (\<lambda>r. if r = 0 then ''NOERROR'' else []),
      Float64 = (\<lambda>g. (0, Rand (seed g) (Suc (drawn g)))),
      Int63n = (\<lambda>g n. (0, Rand (seed g) (Suc (drawn g))))\<rparr>"

definition exampleBenchmark :: Benchmark where
  "exampleBenchmark =
     \<lparr>Server = ''8.8.8.8'', Types = [''A''], Count = 3, Duration = 0, Concurrency = 2,
      Rate = 0, RateLimitWorker = 0, Recurse = True, Probability = 1, EdnsOpt = [],
      DNSSEC = False, Edns0 = 0, DOT = False, RequestTimeout = 5000000000, HistMax = 0,
      Queries = [''example.com''], RequestLogEnabled = False, RequestLogPath = [],
      RequestDelay = [], PrometheusMetricsAddr = [], useDoH = False, useQuic = False,
      requestDelayStart = 0, requestDelayEnd = 0\<rparr>"

definition exampleResponse :: dns_Msg where
  "exampleResponse =
     \<lparr>Id_m = 4660, RecursionDesired = True, Rcode = 0,
      Question = [\<lparr>Name = ''example.com.'', Qtype = 1, Qclass = 1\<rparr>], Extra = []\<rparr>"

definition exampleObs :: obs where
  "exampleObs =
     \<lparr>ctxErr = False, limitDone = False, workerLimitDone = False, globalIntn = 4660,
      startTime = 1000, timeoutNow = 1001, queryResp = Some exampleResponse, queryErr = None,
      sinceStart = 20000000\<rparr>"

definition exampleWorld :: world where
  "exampleWorld =
     \<lparr>httpGet = (\<lambda>i u. None), openLogFails = False, runNow = 0,
      workerEnv = (\<lambda>w. \<lparr>unixNano = 1, observe = (\<lambda>k. exampleObs)\<rparr>)\<rparr>"

definition exampleCtx :: Context where
  "exampleCtx = \<lparr>Deadline = None\<rparr>"

text \<open>
  The same run with a request timeout of minus one second: the context of every
  request has expired when it is made, and the transport fails at once.
\<close>

definition expiredObs :: obs where
  "expiredObs = exampleObs\<lparr>queryResp := None, queryErr := Some (ErrQuery ''context deadline exceeded'')\<rparr>"

definition expiredWorld :: world where
  "expiredWorld = exampleWorld\<lparr>workerEnv := (\<lambda>w. \<lparr>unixNano = 1, observe = (\<lambda>k. expiredObs)\<rparr>)\<rparr>"

definition expiredBenchmark :: Benchmark where
  "expiredBenchmark = exampleBenchmark\<lparr>RequestTimeout := - 1000000000\<rparr>"

text \<open>
  Duration mode with an empty question list: one second, no count, no questions.
\<close>

definition emptyBenchmark :: Benchmark where
  "emptyBenchmark = exampleBenchmark\<lparr>Count := 0, Duration := 1000000000, Queries := []\<rparr>"

text \<open>
  Duration mode with a deadline of the shared context at 100 (the run starts when
  the clock reads 0 and lasts 100 ns). The first step of each worker finds the
  context alive, starts its request at 95 and gets the error of the transport 10 ns
  later, after the deadline; the next step finds the context cancelled.
\<close>

definition lateBenchmark :: Benchmark where
  "lateBenchmark = exampleBenchmark\<lparr>Count := 0, Duration := 100\<rparr>"

definition inflightObs :: obs where
  "inflightObs =
     \<lparr>ctxErr = False, limitDone = False, workerLimitDone = False, globalIntn = 4660,
      startTime = 95, timeoutNow = 96, queryResp = None,
      queryErr = Some (ErrQuery ''context deadline exceeded''), sinceStart = 10\<rparr>"

definition lateWorld :: world where
  "lateWorld =
     exampleWorld\<lparr>workerEnv :=
       (\<lambda>w. \<lparr>unixNano = 1,
              observe = (\<lambda>k. if k = 0 then inflightObs else exampleObs\<lparr>ctxErr := True\<rparr>)\<rparr>)\<rparr>"

text \<open>
  Two workers that read the same clock value at their start and observe the same,
  except for what the global \<^verbatim>\<open>rand.Intn\<close> returns to them.
\<close>

definition intnEnv :: "nat \<Rightarrow> wenv" where
  "intnEnv n = \<lparr>unixNano = 1, observe = (\<lambda>k. exampleObs\<lparr>globalIntn := n\<rparr>)\<rparr>"

text \<open>
  The calls a worker makes on its private generator, and what a sequence of them
  gives from a generator \<open>g\<close>: the delays waited and the generator after them. A
  probability draw is one \<^verbatim>\<open>Float64\<close>; a uniform delay is the start of the interval
  plus one \<^verbatim>\<open>Int63n\<close> of its width; a constant delay draws nothing.
\<close>

datatype draw = ProbabilityDraw | UniformDelay | ConstantDelay

fun privateDraws :: "lib \<Rightarrow> Benchmark \<Rightarrow> rand \<Rightarrow> draw list \<Rightarrow> time list \<times> rand" where
  "privateDraws L b g [] = ([], g)"
| "privateDraws L b g (ProbabilityDraw # ds) = privateDraws L b (snd (Float64 L g)) ds"
| "privateDraws L b g (UniformDelay # ds) =
     (case Int63n L g (requestDelayEnd b - requestDelayStart b) of
        (v, g1) \<Rightarrow>
          (case privateDraws L b g1 ds of (ws, g2) \<Rightarrow> ((v + requestDelayStart b) # ws, g2)))"
| "privateDraws L b g (ConstantDelay # ds) =
     (case privateDraws L b g ds of (ws, g2) \<Rightarrow> (requestDelayStart b # ws, g2))"

text \<open>
  The state \<open>st'\<close> continues \<open>st\<close>: its generator and the delays it has waited since
  are what some sequence of such calls gives from the generator of \<open>st\<close>.
\<close>

definition continues :: "lib \<Rightarrow> Benchmark \<Rightarrow> wstate \<Rightarrow> wstate \<Rightarrow> bool" where
  "continues L b st st' =
     (\<exists>ds ws. privateDraws L b (rando st) ds = (ws, rando st') \<and> waited st' = waited st @ ws)"

text \<open>
  The identifier of a request when the global \<^verbatim>\<open>rand.Intn\<close> has returned \<open>intn\<close>.
  A record, a state and an outcome without the identifiers of the requests and
  without the request log, and two observations that differ at most in what the
  global \<^verbatim>\<open>rand.Intn\<close> returned.
\<close>

definition requestId :: "Benchmark \<Rightarrow> nat \<Rightarrow> 16 word" where
  "requestId b intn = (if useQuic b then 0 else of_nat intn)"

definition withoutId :: "result \<Rightarrow> result" where
  "withoutId r = r\<lparr>request := (request r)\<lparr>Id_m := 0\<rparr>\<rparr>"

definition withoutIds :: "wstate \<Rightarrow> wstate" where
  "withoutIds st = st\<lparr>sink := map withoutId (sink st), logged := []\<rparr>"

fun withoutIdsF :: "flow \<Rightarrow> flow" where
  "withoutIdsF (Next st) = Next (withoutIds st)"
| "withoutIdsF (Return st) = Return (withoutIds st)"
| "withoutIdsF (Panic st) = Panic (withoutIds st)"

definition sameButIntn :: "obs \<Rightarrow> obs \<Rightarrow> bool" where
  "sameButIntn ob ob' = (ob\<lparr>globalIntn := 0\<rparr> = ob'\<lparr>globalIntn := 0\<rparr>)"

text \<open>
  A generator whose \<^verbatim>\<open>Int63n\<close> depends on the seed and on the number of values
  drawn, and a benchmark of two rounds with a delay between 100 and 200
  nanoseconds.
\<close>

definition seededLib :: lib where
  "seededLib =
     exampleLib\<lparr>Int63n := (\<lambda>g n. ((seed g + int (drawn g)) mod n, Rand (seed g) (Suc (drawn g))))\<rparr>"

definition delayedBenchmark :: Benchmark where
  "delayedBenchmark =
     exampleBenchmark\<lparr>Count := 2, requestDelayStart := 100, requestDelayEnd := 200\<rparr>"

text \<open>The request of the example, and what the late run records for it.\<close>

definition exampleRequest :: dns_Msg where
  "exampleRequest =
     \<lparr>Id_m = 4660, RecursionDesired = True, Rcode = 0,
      Question = [\<lparr>Name = ''example.com.'', Qtype = 1, Qclass = ClassINET\<rparr>], Extra = []\<rparr>"

definition lateRecord :: result where
  "lateRecord =
     \<lparr>request = exampleRequest, response = None,
      err = Some (ErrQuery ''context deadline exceeded''), start = 95, duration = 10\<rparr>"

definition freshState :: wstate where
  "freshState = \<lparr>sink = [], rando = rand_New 1, tick = 0, prom = [], waited = [], logged = []\<rparr>"

text \<open>
  The outcome \<open>f\<close> of a step, or of a loop, started in the state \<open>st\<close> stays before
  the observation \<open>k\<close>: the sink has grown by no more than the observations taken up
  to \<open>k\<close>, and if the loops go on, \<open>k\<close> has not been taken yet.
\<close>

definition before :: "nat \<Rightarrow> wstate \<Rightarrow> flow \<Rightarrow> bool" where
  "before k st f =
     (length (sink (flowState f)) + tick st \<le> length (sink st) + k
      \<and> (case f of
           Next st1 \<Rightarrow> tick st1 \<le> k \<and> length (sink st1) + tick st \<le> length (sink st) + tick st1
         | Return st1 \<Rightarrow> True
         | Panic st1 \<Rightarrow> True))"

text \<open>
  What one entry of \<^verbatim>\<open>Queries\<close> contributes to the questions, and when it makes the
  loader fail. A body of three lines, the second one empty, served for every URL.
\<close>

definition entryQuestions :: "http \<Rightarrow> nat \<Rightarrow> string \<Rightarrow> string list" where
  "entryQuestions get i q =
     (if fst (isHTTPUrl q) then
        (case get i q of None \<Rightarrow> [] | Some (status, body) \<Rightarrow> map Fqdn (ScanLines body))
      else [Fqdn q])"

definition entryFails :: "http \<Rightarrow> nat \<Rightarrow> string \<Rightarrow> bool" where
  "entryFails get i q =
     (fst (isHTTPUrl q)
      \<and> (case get i q of None \<Rightarrow> True | Some (status, body) \<Rightarrow> status < 200 \<or> status > 299))"

definition namesBody :: string where
  "namesBody = ''a.com'' @ [CHR 0x0A, CHR 0x0A] @ ''b.com'' @ [CHR 0x0A]"

definition namesHttp :: http where
  "namesHttp = (\<lambda>i u. Some (200, namesBody))"

text \<open>
  The delay grammar of the specification, \<^verbatim>\<open>^(<duration>)(-(<duration>))?$\<close> with
  the suffixes ns, ms, s, m, h, d and w: a duration is a non-empty run of digits and
  a suffix, and a delay is a duration, or two of them with a hyphen between. The
  nanoseconds of a duration whose suffix \<^verbatim>\<open>time.ParseDuration\<close> knows, and the
  largest \<^verbatim>\<open>time.Duration\<close>.
\<close>

definition delayUnit :: "string \<Rightarrow> bool" where
  "delayUnit u = (u \<in> set [''ms'', ''ns'', ''s'', ''m'', ''h'', ''d'', ''w''])"

definition durationText :: "string \<Rightarrow> bool" where
  "durationText s = (takeWhile isDigit s \<noteq> [] \<and> delayUnit (dropWhile isDigit s))"

definition delayGrammar :: "string \<Rightarrow> bool" where
  "delayGrammar s =
     (let a = takeWhile (\<lambda>c. c \<noteq> CHR ''-'') s; r = dropWhile (\<lambda>c. c \<noteq> CHR ''-'') s in
      durationText a \<and> (r = [] \<or> durationText (tl r)))"

definition knownUnit :: "string \<Rightarrow> bool" where
  "knownUnit s = (unitMap (dropWhile isDigit s) \<noteq> None)"

definition nanos :: "string \<Rightarrow> nat" where
  "nanos s =
     decimalValue (takeWhile isDigit s)
       * (case unitMap (dropWhile isDigit s) of None \<Rightarrow> 0 | Some k \<Rightarrow> k)"

definition maxDuration :: nat where
  "maxDuration = 2 ^ 63 - 1"

section \<open>Validation\<close>

subsection \<open>The pieces of an EDNS option\<close>

lemma Split_nonempty: "Split s c \<noteq> []"
  by (induction s) (auto split: list.splits)

lemma Split_single: "Split s c = [a] \<longleftrightarrow> s = a \<and> c \<notin> set a"
proof (induction s arbitrary: a)
  case Nil
  then show ?case by auto
next
  case (Cons x s)
  show ?case
  proof (cases "x = c")
    case True
    then show ?thesis using Split_nonempty[of s c] by auto
  next
    case False
    then show ?thesis using Cons[of "tl a"] Split_nonempty[of s c]
      by (cases a) (auto split: list.splits)
  qed
qed

lemma Split_two: "Split s c = [a, b] \<longleftrightarrow> s = a @ c # b \<and> c \<notin> set a \<and> c \<notin> set b"
proof (induction s arbitrary: a)
  case Nil
  then show ?case by auto
next
  case (Cons x s)
  show ?case
  proof (cases "x = c")
    case True
    then show ?thesis using Split_single[of s c b] by (cases a) auto
  next
    case False
    then show ?thesis using Cons[of "tl a"] Split_nonempty[of s c]
      by (cases a) (auto split: list.splits)
  qed
qed

lemma decimal_step_ge: "n \<le> foldl (\<lambda>n c. n * 10 + digitVal c) n s"
proof (induction s arbitrary: n)
  case Nil
  then show ?case by simp
next
  case (Cons c s)
  have "n \<le> n * 10 + digitVal c" by simp
  also have "\<dots> \<le> foldl (\<lambda>n c. n * 10 + digitVal c) (n * 10 + digitVal c) s" by (rule Cons)
  finally show ?case by simp
qed

lemma ParseUint_loop_Inr:
  "ParseUint_loop n s = Inr m \<longleftrightarrow>
     (s = [] \<and> m = n)
     \<or> (list_all isDigit s \<and> m = foldl (\<lambda>n c. n * 10 + digitVal c) n s \<and> m \<le> 65535)"
proof (induction s arbitrary: n)
  case Nil
  then show ?case by auto
next
  case (Cons c s)
  show ?case
    using Cons[of "n * 10 + digitVal c"] decimal_step_ge[of "n * 10 + digitVal c" s]
    by (auto simp: Let_def)
qed

lemma ParseUint_ok:
  "(\<exists>m. ParseUint s = Inr m) \<longleftrightarrow> s \<noteq> [] \<and> list_all isDigit s \<and> decimalValue s \<le> 65535"
  by (auto simp: ParseUint_def ParseUint_loop_Inr decimalValue_def)

lemma ParseUint_val: "ParseUint s = Inr m \<Longrightarrow> m = decimalValue s"
  by (auto simp: ParseUint_def ParseUint_loop_Inr decimalValue_def split: if_splits)

lemma DecodeString_ok:
  "snd (DecodeString s) = None \<longleftrightarrow> list_all isHex s \<and> even (length s)"
  by (induction s rule: DecodeString.induct)
     (auto simp: isHex_def split: option.splits prod.splits)

lemma isDigit_not_colon: "isDigit c \<Longrightarrow> c \<noteq> CHR '':''"
  by (auto simp: isDigit_def)

lemma isHex_not_colon: "isHex c \<Longrightarrow> c \<noteq> CHR '':''"
  by (auto simp: isHex_def fromHexChar_def)

lemma checkEdnsOpt_grammar:
  "checkEdnsOpt s = None \<longleftrightarrow>
     (\<exists>code data. s = code @ '':'' @ data
        \<and> code \<noteq> [] \<and> list_all isDigit code \<and> decimalValue code \<le> 65535
        \<and> list_all isHex data \<and> even (length data))"
proof
  assume ok: "checkEdnsOpt s = None"
  then have len: "length (Split s (CHR '':'')) = 2"
    by (auto simp: checkEdnsOpt_def Let_def split: if_splits)
  then obtain a b where ab: "Split s (CHR '':'') = [a, b]"
    by (cases "Split s (CHR '':'')"; cases "tl (Split s (CHR '':''))") auto
  from ok ab have "snd (DecodeString b) = None" "\<exists>m. ParseUint a = Inr m"
    by (auto simp: checkEdnsOpt_def Let_def split: if_splits sum.splits)
  with ab show "\<exists>code data. s = code @ '':'' @ data
        \<and> code \<noteq> [] \<and> list_all isDigit code \<and> decimalValue code \<le> 65535
        \<and> list_all isHex data \<and> even (length data)"
    by (auto simp: Split_two DecodeString_ok ParseUint_ok)
next
  assume "\<exists>code data. s = code @ '':'' @ data
        \<and> code \<noteq> [] \<and> list_all isDigit code \<and> decimalValue code \<le> 65535
        \<and> list_all isHex data \<and> even (length data)"
  then obtain code data where s: "s = code @ '':'' @ data"
    and c: "code \<noteq> []" "list_all isDigit code" "decimalValue code \<le> 65535"
    and d: "list_all isHex data" "even (length data)"
    by blast
  have "CHR '':'' \<notin> set code" using c(2) isDigit_not_colon by (auto simp: list_all_iff)
  moreover have "CHR '':'' \<notin> set data" using d(1) isHex_not_colon by (auto simp: list_all_iff)
  ultimately have sp: "Split s (CHR '':'') = [code, data]" using s by (simp add: Split_two)
  have "\<exists>m. ParseUint code = Inr m" using c by (simp add: ParseUint_ok)
  moreover have "snd (DecodeString data) = None" using d by (simp add: DecodeString_ok)
  ultimately show "checkEdnsOpt s = None"
    using sp by (auto simp: checkEdnsOpt_def Let_def)
qed

lemma checkEdnsOpt_NoneD:
  assumes "checkEdnsOpt s = None"
  shows "length (Split s (CHR '':'')) = 2"
    and "ParseUint (Split s (CHR '':'') ! 0) = Inr (decimalValue (Split s (CHR '':'') ! 0))"
  using assms
  by (auto simp: checkEdnsOpt_def Let_def split: if_splits sum.splits dest: ParseUint_val)

subsection \<open>What the stages of \<^verbatim>\<open>init\<close> keep\<close>

lemma addPortIfMissing_fields [simp]:
  "Count (addPortIfMissing L b) = Count b"
  "Duration (addPortIfMissing L b) = Duration b"
  "EdnsOpt (addPortIfMissing L b) = EdnsOpt b"
  "RequestDelay (addPortIfMissing L b) = RequestDelay b"
  "requestDelayStart (addPortIfMissing L b) = requestDelayStart b"
  "requestDelayEnd (addPortIfMissing L b) = requestDelayEnd b"
  by (simp_all add: addPortIfMissing_def)

lemma init_server_fields:
  assumes "init_server L b = Inr b1"
  shows "Count b1 = Count b" "Duration b1 = Duration b" "EdnsOpt b1 = EdnsOpt b"
    "RequestDelay b1 = RequestDelay b"
    "requestDelayStart b1 = requestDelayStart b" "requestDelayEnd b1 = requestDelayEnd b"
  using assms by (auto simp: init_server_def Let_def split: if_splits option.splits)

lemma init_count_Inr:
  "init_count b = Inr b1 \<longleftrightarrow>
     b1 = (if Count b = 0 \<and> Duration b = 0 then b\<lparr>Count := 1\<rparr> else b)
     \<and> \<not> (Duration b1 > 0 \<and> Count b1 > 0)"
  by (auto simp: init_count_def Let_def)

lemma init_count_fields:
  assumes "init_count b = Inr b1"
  shows "EdnsOpt b1 = EdnsOpt b" "RequestDelay b1 = RequestDelay b"
    "requestDelayStart b1 = requestDelayStart b" "requestDelayEnd b1 = requestDelayEnd b"
  using assms by (auto simp: init_count_def Let_def split: if_splits)

lemma init_edns_fields:
  assumes "init_edns b = Inr b1"
  shows "Count b1 = Count b" "Duration b1 = Duration b" "EdnsOpt b1 = EdnsOpt b"
    "RequestDelay b1 = RequestDelay b"
    "requestDelayStart b1 = requestDelayStart b" "requestDelayEnd b1 = requestDelayEnd b"
  using assms by (auto simp: init_edns_def Let_def split: if_splits option.splits)

lemma parseRequestDelay_fields:
  assumes "parseRequestDelay b = Inr b1"
  shows "Count b1 = Count b" "Duration b1 = Duration b" "EdnsOpt b1 = EdnsOpt b"
    "RequestDelay b1 = RequestDelay b"
  using assms by (auto simp: parseRequestDelay_def Let_def split: if_splits sum.splits)

lemma init_delay_fields:
  assumes "init_delay b = Inr b1"
  shows "Count b1 = Count b" "Duration b1 = Duration b" "EdnsOpt b1 = EdnsOpt b"
    "RequestDelay b1 = RequestDelay b"
  using parseRequestDelay_fields[OF assms[unfolded init_delay_def]] by (simp_all split: if_splits)

lemma init_stages:
  assumes "init L b = Inr b'"
  obtains b1 b2 b3 where "init_server L b = Inr b1" "init_count b1 = Inr b2"
    "init_edns b2 = Inr b3" "init_delay b3 = Inr b'"
  using assms by (auto simp: init_def split: sum.splits)

lemma init_EdnsOpt:
  assumes "init L b = Inr b'"
  shows "EdnsOpt b' = EdnsOpt b"
proof -
  from assms obtain b1 b2 b3 where s: "init_server L b = Inr b1" "init_count b1 = Inr b2"
      "init_edns b2 = Inr b3" "init_delay b3 = Inr b'"
    by (rule init_stages)
  show ?thesis
    using init_server_fields(3)[OF s(1)] init_count_fields(1)[OF s(2)]
      init_edns_fields(3)[OF s(3)] init_delay_fields(3)[OF s(4)] by simp
qed

lemma init_checked:
  assumes "init L b0 = Inr b"
  shows "EdnsOpt b = [] \<or> checkEdnsOpt (EdnsOpt b) = None"
proof -
  from assms obtain b1 b2 b3 where s: "init_server L b0 = Inr b1" "init_count b1 = Inr b2"
      "init_edns b2 = Inr b3" "init_delay b3 = Inr b"
    by (rule init_stages)
  have "EdnsOpt b3 = [] \<or> checkEdnsOpt (EdnsOpt b3) = None"
    using s(3) by (auto simp: init_edns_def Let_def split: if_splits option.splits)
  then show ?thesis using init_delay_fields(3)[OF s(4)] by simp
qed

lemma parseRequestDelay_defined:
  assumes "parseRequestDelay b = Inr b2" "requestDelayStart b = 0" "requestDelayEnd b = 0"
  shows "delayDefined b2"
  using assms
  by (auto simp: parseRequestDelay_def delayDefined_def Let_def split: if_splits sum.splits)

lemma init_delayDefined:
  assumes "init L b0 = Inr b" "requestDelayStart b0 = 0" "requestDelayEnd b0 = 0"
  shows "delayDefined b"
proof -
  from assms(1) obtain b1 b2 b3 where s: "init_server L b0 = Inr b1" "init_count b1 = Inr b2"
      "init_edns b2 = Inr b3" "init_delay b3 = Inr b"
    by (rule init_stages)
  have "requestDelayStart b3 = 0" "requestDelayEnd b3 = 0"
    using init_server_fields(5,6)[OF s(1)] init_count_fields(3,4)[OF s(2)]
      init_edns_fields(5,6)[OF s(3)] assms(2,3)
    by simp_all
  then show ?thesis using s(4) unfolding init_delay_def
    by (auto intro: parseRequestDelay_defined split: if_splits)
qed

lemma Run_init_error: "init L b = Inl e \<Longrightarrow> Run fuel L W ctx b = Failed e"
  by (simp add: Run_def)

lemma init_example:
  "init exampleLib exampleBenchmark
     = Inr (exampleBenchmark\<lparr>Server := ''8.8.8.8:53'', HistMax := 5000000000\<rparr>)"
  by (simp add: init_def init_server_def init_count_def init_edns_def init_delay_def
      parseRequestDelay_def exampleBenchmark_def exampleLib_def isHTTPUrl_def HasPrefix_def
      addPortIfMissing_def JoinHostPort_def Let_def)

subsection \<open>The EDNS option (C9)\<close>

text \<open>
  C9, as the code has it. The check of a non-empty \<^verbatim>\<open>ednsOpt\<close> passes exactly when
  the string is a decimal code, one colon and hexadecimal data, where the code is
  not empty and fits 16 bits and the data has an even number of digits, possibly
  none; and a non-empty option that does not pass makes \<^verbatim>\<open>init\<close> return an error,
  so that \<^verbatim>\<open>Run\<close> fails before any worker is started.
\<close>

theorem checkEdnsOpt_accepts_iff:
  "(checkEdnsOpt s = None \<longleftrightarrow>
      (\<exists>code data. s = code @ '':'' @ data
         \<and> code \<noteq> [] \<and> list_all isDigit code \<and> decimalValue code \<le> 65535
         \<and> list_all isHex data \<and> even (length data)))
   \<and> (EdnsOpt b = s \<and> s \<noteq> [] \<and> checkEdnsOpt s \<noteq> None
        \<longrightarrow> (\<exists>e. init L b = Inl e \<and> Run fuel L W ctx b = Failed e))"
proof (intro conjI impI)
  show "checkEdnsOpt s = None \<longleftrightarrow>
      (\<exists>code data. s = code @ '':'' @ data
         \<and> code \<noteq> [] \<and> list_all isDigit code \<and> decimalValue code \<le> 65535
         \<and> list_all isHex data \<and> even (length data))"
    by (rule checkEdnsOpt_grammar)
next
  assume h: "EdnsOpt b = s \<and> s \<noteq> [] \<and> checkEdnsOpt s \<noteq> None"
  show "\<exists>e. init L b = Inl e \<and> Run fuel L W ctx b = Failed e"
  proof (cases "init L b")
    case (Inl e)
    then show ?thesis by (simp add: Run_init_error)
  next
    case (Inr b')
    then have "EdnsOpt b' = [] \<or> checkEdnsOpt (EdnsOpt b') = None" by (rule init_checked)
    moreover have "EdnsOpt b' = s" using init_EdnsOpt[OF Inr] h by simp
    ultimately show ?thesis using h by simp
  qed
qed

theorem checkEdnsOpt_accepts_iff_witness:
  "checkEdnsOpt ''65001:DEADBEEF'' = None
   \<and> (\<exists>e. init exampleLib (exampleBenchmark\<lparr>EdnsOpt := ''65001''\<rparr>) = Inl e
          \<and> Run 3 exampleLib exampleWorld exampleCtx (exampleBenchmark\<lparr>EdnsOpt := ''65001''\<rparr>) = Failed e)"
proof -
  have "\<exists>code data. ''65001:DEADBEEF'' = code @ '':'' @ data
         \<and> code \<noteq> [] \<and> list_all isDigit code \<and> decimalValue code \<le> 65535
         \<and> list_all isHex data \<and> even (length data)"
    by (intro exI[of _ "''65001''"] exI[of _ "''DEADBEEF''"])
       (simp add: isDigit_def isHex_def fromHexChar_def decimalValue_def digitVal_def)
  then have a: "checkEdnsOpt ''65001:DEADBEEF'' = None"
    using checkEdnsOpt_accepts_iff[of "''65001:DEADBEEF''"] by blast
  have n: "checkEdnsOpt ''65001'' \<noteq> None"
    by (simp add: checkEdnsOpt_def)
  have "\<exists>e. init exampleLib (exampleBenchmark\<lparr>EdnsOpt := ''65001''\<rparr>) = Inl e
          \<and> Run 3 exampleLib exampleWorld exampleCtx (exampleBenchmark\<lparr>EdnsOpt := ''65001''\<rparr>) = Failed e"
    using checkEdnsOpt_accepts_iff[of "''65001''" "exampleBenchmark\<lparr>EdnsOpt := ''65001''\<rparr>"
        exampleLib 3 exampleWorld exampleCtx] n
    by simp
  with a show ?thesis by simp
qed

text \<open>
  C9, as it is stated, fails: it requires both halves, and the option
  \<^verbatim>\<open>65001:\<close>, whose data half is missing, passes the check, and \<^verbatim>\<open>init\<close> with it.
\<close>

theorem checkEdnsOpt_empty_data_accepted:
  "Split ''65001:'' (CHR '':'') = [''65001'', []]
   \<and> checkEdnsOpt ''65001:'' = None
   \<and> init exampleLib (exampleBenchmark\<lparr>EdnsOpt := ''65001:''\<rparr>)
       = Inr (exampleBenchmark\<lparr>EdnsOpt := ''65001:'', Server := ''8.8.8.8:53'', HistMax := 5000000000\<rparr>)"
  by (simp add: checkEdnsOpt_def ParseUint_def isDigit_def digitVal_def Let_def
      init_def init_server_def init_count_def init_edns_def init_delay_def
      parseRequestDelay_def exampleBenchmark_def exampleLib_def isHTTPUrl_def HasPrefix_def
      addPortIfMissing_def JoinHostPort_def)

subsection \<open>Count and duration (C4)\<close>

text \<open>
  C4, as the code has it. After a successful \<^verbatim>\<open>init\<close> the count and the duration
  are never both positive; when neither was supplied the count is 1 and the
  duration 0; when neither was negative exactly one of them is positive; and when
  both are positive \<^verbatim>\<open>init\<close> returns an error, so that \<^verbatim>\<open>Run\<close> fails before any
  worker is started.
\<close>

theorem init_count_duration:
  "(init L b = Inr b' \<longrightarrow>
      \<not> (Count b' > 0 \<and> Duration b' > 0)
      \<and> (Count b = 0 \<and> Duration b = 0 \<longrightarrow> Count b' = 1 \<and> Duration b' = 0)
      \<and> (0 \<le> Count b \<and> 0 \<le> Duration b \<longrightarrow> (Count b' > 0) \<noteq> (Duration b' > 0)))
   \<and> (Count b > 0 \<and> Duration b > 0
        \<longrightarrow> (\<exists>e. init L b = Inl e \<and> Run fuel L W ctx b = Failed e))"
proof -
  have A: "\<not> (Count b' > 0 \<and> Duration b' > 0)
      \<and> (Count b = 0 \<and> Duration b = 0 \<longrightarrow> Count b' = 1 \<and> Duration b' = 0)
      \<and> (0 \<le> Count b \<and> 0 \<le> Duration b \<longrightarrow> (Count b' > 0) \<noteq> (Duration b' > 0))"
    if i: "init L b = Inr b'"
  proof -
    from i obtain b1 b2 b3 where s: "init_server L b = Inr b1" "init_count b1 = Inr b2"
        "init_edns b2 = Inr b3" "init_delay b3 = Inr b'"
      by (rule init_stages)
    have c: "Count b' = Count b2" "Duration b' = Duration b2"
      using init_edns_fields(1,2)[OF s(3)] init_delay_fields(1,2)[OF s(4)] by simp_all
    have c1: "Count b1 = Count b" "Duration b1 = Duration b"
      using init_server_fields(1,2)[OF s(1)] by simp_all
    have b2: "b2 = (if Count b1 = 0 \<and> Duration b1 = 0 then b1\<lparr>Count := 1\<rparr> else b1)"
        "\<not> (Duration b2 > 0 \<and> Count b2 > 0)"
      using init_count_Inr[THEN iffD1, OF s(2)] by blast+
    show ?thesis using b2 c c1 by (auto split: if_splits)
  qed
  have B: "\<exists>e. init L b = Inl e \<and> Run fuel L W ctx b = Failed e"
    if h: "Count b > 0 \<and> Duration b > 0"
  proof (cases "init_server L b")
    case (Inl e)
    then have "init L b = Inl e" by (simp add: init_def)
    then show ?thesis by (simp add: Run_init_error)
  next
    case (Inr b1)
    then have "init_count b1 = Inl ErrNumberAndDuration"
      using init_server_fields(1,2)[OF Inr] h by (simp add: init_count_def)
    then have "init L b = Inl ErrNumberAndDuration" using Inr by (simp add: init_def)
    then show ?thesis by (simp add: Run_init_error)
  qed
  show ?thesis using A B by blast
qed

theorem init_count_duration_witness:
  "(\<exists>b'. init exampleLib exampleBenchmark = Inr b' \<and> ((Count b' > 0) \<noteq> (Duration b' > 0)))
   \<and> (\<exists>e. init exampleLib (exampleBenchmark\<lparr>Duration := 1000000000\<rparr>) = Inl e
        \<and> Run 3 exampleLib exampleWorld exampleCtx (exampleBenchmark\<lparr>Duration := 1000000000\<rparr>) = Failed e)"
proof -
  let ?b' = "exampleBenchmark\<lparr>Server := ''8.8.8.8:53'', HistMax := 5000000000\<rparr>"
  have "(Count ?b' > 0) \<noteq> (Duration ?b' > 0)"
    using init_count_duration[of exampleLib exampleBenchmark ?b'] init_example
    by (simp add: exampleBenchmark_def)
  then have "\<exists>b'. init exampleLib exampleBenchmark = Inr b' \<and> ((Count b' > 0) \<noteq> (Duration b' > 0))"
    using init_example by blast
  moreover have "\<exists>e. init exampleLib (exampleBenchmark\<lparr>Duration := 1000000000\<rparr>) = Inl e
        \<and> Run 3 exampleLib exampleWorld exampleCtx (exampleBenchmark\<lparr>Duration := 1000000000\<rparr>) = Failed e"
    using init_count_duration[of exampleLib "exampleBenchmark\<lparr>Duration := 1000000000\<rparr>" _ 3
        exampleWorld exampleCtx]
    by (simp add: exampleBenchmark_def)
  ultimately show ?thesis by blast
qed

text \<open>
  C4, as it is stated, fails: a negative count with no duration passes \<^verbatim>\<open>init\<close>
  as it is, and then neither the count nor the duration is positive.
\<close>

theorem init_negative_count_accepted:
  "\<exists>b'. init exampleLib (exampleBenchmark\<lparr>Count := - 1\<rparr>) = Inr b'
        \<and> \<not> Count b' > 0 \<and> \<not> Duration b' > 0"
proof -
  have "init exampleLib (exampleBenchmark\<lparr>Count := - 1\<rparr>)
      = Inr (exampleBenchmark\<lparr>Count := - 1, Server := ''8.8.8.8:53'', HistMax := 5000000000\<rparr>)"
    by (simp add: init_def init_server_def init_count_def init_edns_def init_delay_def
        parseRequestDelay_def exampleBenchmark_def exampleLib_def isHTTPUrl_def HasPrefix_def
        addPortIfMissing_def JoinHostPort_def Let_def)
  then show ?thesis by (simp add: exampleBenchmark_def)
qed

section \<open>Requests and the telemetry tap\<close>

subsection \<open>The request of a step (C5)\<close>

lemma lastOPT_snoc_OPT [simp]: "lastOPT (rs @ [RR_OPT opt]) = Some (length rs)"
  by (induction rs) auto

lemma IsEdns0_SetEdns0 [simp]: "IsEdns0 (SetEdns0 m sz d) = Some (length (Extra m))"
  by (simp add: IsEdns0_def SetEdns0_def)

lemma buildRequest_valid:
  assumes "EdnsOpt b = [] \<or> checkEdnsOpt (EdnsOpt b) = None"
  shows "buildRequest b intn q qt =
     Some \<lparr>Id_m = (if useQuic b then 0 else of_nat intn), RecursionDesired = Recurse b, Rcode = 0,
           Question = [\<lparr>Name = q, Qtype = qt, Qclass = ClassINET\<rparr>], Extra = optOf b\<rparr>"
proof (cases "EdnsOpt b = []")
  case True
  then show ?thesis
    by (simp add: buildRequest_def optOf_def Let_def updOPT_def IsEdns0_def SetEdns0_def)
next
  case False
  with assms have "checkEdnsOpt (EdnsOpt b) = None" by simp
  note v = checkEdnsOpt_NoneD[OF this]
  show ?thesis using False v
    by (simp add: buildRequest_def addEdnsOpt_def optOf_def Let_def updOPT_def IsEdns0_def
        SetEdns0_def)
qed

lemma theOPT_optOf:
  "theOPT \<lparr>Id_m = i, RecursionDesired = r, Rcode = c, Question = qs, Extra = optOf b\<rparr>
     = (case optOf b of [RR_OPT opt] \<Rightarrow> Some opt | _ \<Rightarrow> None)"
  by (simp add: theOPT_def IsEdns0_def optOf_def)

text \<open>
  C5. Every request a validated benchmark builds exists (no panic), has the one
  question asked, the identifier 0 under QUIC and otherwise the 16 low bits of the
  value drawn by \<^verbatim>\<open>rand.Intn\<close>, the RD flag of the configuration, and an
  additional section that is one \<^verbatim>\<open>OPT\<close> record exactly when the buffer size is
  positive, an option is set or DNSSEC is on, and is empty otherwise. The buffer
  size of the record is the configured one when that is positive and 1232
  otherwise, its DO bit is the DNSSEC setting, and it carries the local option
  when one is set.
\<close>

theorem buildRequest_shape:
  assumes "init L b0 = Inr b"
  shows "\<exists>rq. buildRequest b intn q qt = Some rq
      \<and> Question rq = [\<lparr>Name = q, Qtype = qt, Qclass = ClassINET\<rparr>]
      \<and> Id_m rq = (if useQuic b then 0 else of_nat intn)
      \<and> RecursionDesired rq = Recurse b
      \<and> (theOPT rq \<noteq> None \<longleftrightarrow> Edns0 b > 0 \<or> EdnsOpt b \<noteq> [] \<or> DNSSEC b)
      \<and> (theOPT rq = None \<longleftrightarrow> Extra rq = [])
      \<and> (\<forall>opt. theOPT rq = Some opt \<longrightarrow>
            Extra rq = [RR_OPT opt]
            \<and> UDPSize opt = (if Edns0 b > 0 then Edns0 b else 1232)
            \<and> Do opt = DNSSEC b
            \<and> Option opt = (if EdnsOpt b \<noteq> [] then
                 [\<lparr>Code = of_nat (decimalValue (Split (EdnsOpt b) (CHR '':'') ! 0)),
                   Data = fst (DecodeString (Split (EdnsOpt b) (CHR '':'') ! 1))\<rparr>] else []))"
proof -
  let ?rq = "\<lparr>Id_m = (if useQuic b then 0 else of_nat intn), RecursionDesired = Recurse b, Rcode = 0,
           Question = [\<lparr>Name = q, Qtype = qt, Qclass = ClassINET\<rparr>], Extra = optOf b\<rparr>"
  have b: "buildRequest b intn q qt = Some ?rq"
    using buildRequest_valid[OF init_checked[OF assms]] .
  have o: "theOPT ?rq = (case optOf b of [RR_OPT opt] \<Rightarrow> Some opt | _ \<Rightarrow> None)"
    by (rule theOPT_optOf)
  show ?thesis
    apply (rule exI[of _ ?rq])
    apply (simp only: b o)
    apply (simp add: optOf_def DefaultEdns0BufferSize_def)
    done
qed

theorem buildRequest_shape_witness:
  "\<exists>b rq. init exampleLib (exampleBenchmark\<lparr>EdnsOpt := ''65001:DEADBEEF'', DNSSEC := True\<rparr>) = Inr b
     \<and> buildRequest b 4660 ''example.com.'' 1 = Some rq
     \<and> Question rq = [\<lparr>Name = ''example.com.'', Qtype = 1, Qclass = ClassINET\<rparr>]
     \<and> Id_m rq = 4660
     \<and> Extra rq = [RR_OPT \<lparr>UDPSize = 1232, Do = True,
                            Option = [\<lparr>Code = 65001, Data = [0xDE, 0xAD, 0xBE, 0xEF]\<rparr>]\<rparr>]"
proof -
  let ?cfg = "exampleBenchmark\<lparr>EdnsOpt := ''65001:DEADBEEF'', DNSSEC := True\<rparr>"
  let ?nb = "?cfg\<lparr>Server := ''8.8.8.8:53'', HistMax := 5000000000\<rparr>"
  have i: "init exampleLib ?cfg = Inr ?nb"
    by (simp add: init_def init_server_def init_count_def init_edns_def init_delay_def
        parseRequestDelay_def exampleBenchmark_def exampleLib_def isHTTPUrl_def HasPrefix_def
        addPortIfMissing_def JoinHostPort_def Let_def checkEdnsOpt_def ParseUint_def isDigit_def
        digitVal_def fromHexChar_def)
  from buildRequest_shape[OF i, of 4660 "''example.com.''" 1]
  obtain rq where rq: "buildRequest ?nb 4660 ''example.com.'' 1 = Some rq"
    "Question rq = [\<lparr>Name = ''example.com.'', Qtype = 1, Qclass = ClassINET\<rparr>]"
    "Id_m rq = (if useQuic ?nb then 0 else of_nat 4660)"
    "theOPT rq \<noteq> None \<longleftrightarrow> Edns0 ?nb > 0 \<or> EdnsOpt ?nb \<noteq> [] \<or> DNSSEC ?nb"
    "\<forall>opt. theOPT rq = Some opt \<longrightarrow>
            Extra rq = [RR_OPT opt]
            \<and> UDPSize opt = (if Edns0 ?nb > 0 then Edns0 ?nb else 1232)
            \<and> Do opt = DNSSEC ?nb
            \<and> Option opt = (if EdnsOpt ?nb \<noteq> [] then
                 [\<lparr>Code = of_nat (decimalValue (Split (EdnsOpt ?nb) (CHR '':'') ! 0)),
                   Data = fst (DecodeString (Split (EdnsOpt ?nb) (CHR '':'') ! 1))\<rparr>] else [])"
    by blast
  from rq(4) obtain opt where opt: "theOPT rq = Some opt"
    by (auto simp: exampleBenchmark_def)
  with rq(5) have e: "Extra rq = [RR_OPT opt]" "UDPSize opt = 1232" "Do opt = True"
    "Option opt = [\<lparr>Code = 65001, Data = [0xDE, 0xAD, 0xBE, 0xEF]\<rparr>]"
    by (simp_all add: exampleBenchmark_def decimalValue_def digitVal_def fromHexChar_def)
  then have "Extra rq = [RR_OPT \<lparr>UDPSize = 1232, Do = True,
                            Option = [\<lparr>Code = 65001, Data = [0xDE, 0xAD, 0xBE, 0xEF]\<rparr>]\<rparr>]"
    by (cases opt) simp
  moreover have "Id_m rq = 4660" using rq(3) by (simp add: exampleBenchmark_def)
  ultimately show ?thesis using i rq(1,2)
    by (intro exI[of _ ?nb] exI[of _ rq]) simp
qed

subsection \<open>The telemetry tap (C10)\<close>

lemma measureProm_None_iff:
  "measureProm L b rq resp dur e evs = None \<longleftrightarrow>
     PrometheusMetricsAddr b \<noteq> []
     \<and> ((\<exists>r. resp = Some r \<and> Question r = []) \<or> Question rq = [])"
  by (auto simp: measureProm_def Let_def split: option.splits list.splits)

text \<open>
  C10. With the metrics enabled, \<^verbatim>\<open>measureProm\<close> indexes the first question of the
  response, when there is one, and of the request, with no guard: it panics exactly
  when the metrics are enabled and the response is present with an empty question
  section, or the request has no question. In a step, where the request always has
  its question, a response with an empty question section that arrives without an
  error makes the worker panic, after the query has been recorded.
\<close>

theorem measureProm_fails_iff:
  "(measureProm L b rq resp dur e evs = None \<longleftrightarrow>
      PrometheusMetricsAddr b \<noteq> []
      \<and> ((\<exists>r. resp = Some r \<and> Question r = []) \<or> Question rq = []))
   \<and> (PrometheusMetricsAddr b \<noteq> [] \<and> init L b0 = Inr b
        \<and> queryResp ob = Some r \<and> Question r = [] \<and> queryErr ob = None
        \<longrightarrow> (\<exists>st1. dispatch L b ctx w ob q qt st = Panic st1
               \<and> length (sink st1) = Suc (length (sink st))))"
proof (intro conjI impI)
  show "measureProm L b rq resp dur e evs = None \<longleftrightarrow>
      PrometheusMetricsAddr b \<noteq> []
      \<and> ((\<exists>r. resp = Some r \<and> Question r = []) \<or> Question rq = [])"
    by (rule measureProm_None_iff)
next
  assume h: "PrometheusMetricsAddr b \<noteq> [] \<and> init L b0 = Inr b
        \<and> queryResp ob = Some r \<and> Question r = [] \<and> queryErr ob = None"
  then obtain rq where rq: "buildRequest b (globalIntn ob) q qt = Some rq"
    using buildRequest_valid[OF init_checked, of L b0 b] by blast
  have "measureProm L b rq (Some r) d None evs = None" for d evs
    using h by (simp add: measureProm_None_iff)
  then show "\<exists>st1. dispatch L b ctx w ob q qt st = Panic st1
               \<and> length (sink st1) = Suc (length (sink st))"
    using h rq by (simp add: dispatch_def Let_def record_result_def)
qed

theorem measureProm_fails_iff_witness:
  "measureProm exampleLib (exampleBenchmark\<lparr>PrometheusMetricsAddr := '':8080''\<rparr>)
      exampleResponse (Some (exampleResponse\<lparr>Question := []\<rparr>)) 20000000 None [] = None
   \<and> (\<exists>st1. dispatch exampleLib
          (exampleBenchmark\<lparr>PrometheusMetricsAddr := '':8080'', Server := ''8.8.8.8:53'',
                            HistMax := 5000000000\<rparr>)
          exampleCtx 0 (exampleObs\<lparr>queryResp := Some (exampleResponse\<lparr>Question := []\<rparr>)\<rparr>)
          ''example.com.'' 1
          \<lparr>sink = [], rando = rand_New 1, tick = 1, prom = [], waited = [], logged = []\<rparr> = Panic st1
        \<and> length (sink st1) = 1)"
proof -
  let ?cfg = "exampleBenchmark\<lparr>PrometheusMetricsAddr := '':8080''\<rparr>"
  let ?nb = "exampleBenchmark\<lparr>PrometheusMetricsAddr := '':8080'', Server := ''8.8.8.8:53'',
                            HistMax := 5000000000\<rparr>"
  let ?r = "exampleResponse\<lparr>Question := []\<rparr>"
  let ?ob = "exampleObs\<lparr>queryResp := Some ?r\<rparr>"
  let ?st = "\<lparr>sink = [], rando = rand_New 1, tick = 1, prom = [], waited = [], logged = []\<rparr>"
  have i: "init exampleLib ?cfg = Inr ?nb"
    by (simp add: init_def init_server_def init_count_def init_edns_def init_delay_def
        parseRequestDelay_def exampleBenchmark_def exampleLib_def isHTTPUrl_def HasPrefix_def
        addPortIfMissing_def JoinHostPort_def Let_def)
  have a: "measureProm exampleLib ?cfg exampleResponse (Some ?r) 20000000 None [] = None"
    using measureProm_fails_iff[of exampleLib ?cfg exampleResponse "Some ?r" 20000000 None "[]"]
    by (simp add: exampleBenchmark_def)
  have "\<exists>st1. dispatch exampleLib ?nb exampleCtx 0 ?ob ''example.com.'' 1 ?st = Panic st1
        \<and> length (sink st1) = Suc (length (sink ?st))"
    using measureProm_fails_iff[of exampleLib ?nb _ _ _ _ _ ?cfg ?ob ?r exampleCtx 0
        "''example.com.''" 1 ?st] i
    by (simp add: exampleBenchmark_def exampleObs_def)
  then show ?thesis using a by simp
qed

section \<open>The worker\<close>

subsection \<open>A step records at most once\<close>

lemma dispatch_sink:
  "sink (flowState (dispatch L b ctx w ob q qt st)) = sink st
   \<or> (\<exists>r. sink (flowState (dispatch L b ctx w ob q qt st)) = sink st @ [r])"
  by (auto simp: dispatch_def Let_def record_result_def split: option.splits prod.splits)

lemma dispatch_tick: "tick (flowState (dispatch L b ctx w ob q qt st)) = tick st"
  by (auto simp: dispatch_def Let_def split: option.splits prod.splits)

lemma step_sink:
  "sink (flowState (step L b ctx w ob q qt st)) = sink st
   \<or> (\<exists>r. sink (flowState (step L b ctx w ob q qt st)) = sink st @ [r])"
  using dispatch_sink[of L b ctx w ob q qt "st\<lparr>rando := snd (Float64 L (rando st))\<rparr>"]
  by (auto simp: step_def Let_def split: prod.splits)

lemma step_tick: "tick (flowState (step L b ctx w ob q qt st)) = tick st"
  using dispatch_tick[of L b ctx w ob q qt "st\<lparr>rando := snd (Float64 L (rando st))\<rparr>"]
  by (auto simp: step_def Let_def split: prod.splits)

lemma step_len: "length (sink (flowState (step L b ctx w ob q qt st))) \<le> Suc (length (sink st))"
  using step_sink[of L b ctx w ob q qt st] by auto

lemma typesLoop_len:
  "length (sink (flowState (typesLoop L b ctx w env q qTypes st)))
     \<le> length (sink st) + length qTypes"
proof (induction qTypes arbitrary: st)
  case Nil
  then show ?case by simp
next
  case (Cons qt qTypes)
  let ?f = "step L b ctx w (env (tick st)) q qt (st\<lparr>tick := Suc (tick st)\<rparr>)"
  have s: "length (sink (flowState ?f)) \<le> Suc (length (sink st))"
    using step_len[of L b ctx w "env (tick st)" q qt "st\<lparr>tick := Suc (tick st)\<rparr>"] by simp
  show ?case
  proof (cases ?f)
    case (Next st1)
    then show ?thesis using Cons[of st1] s by simp
  next
    case (Return st1)
    then show ?thesis using s by simp
  next
    case (Panic st1)
    then show ?thesis using s by simp
  qed
qed

lemma questionsLoop_len:
  "length (sink (flowState (questionsLoop L b ctx w env questions qTypes st)))
     \<le> length (sink st) + length questions * length qTypes"
proof (induction questions arbitrary: st)
  case Nil
  then show ?case by simp
next
  case (Cons q questions)
  let ?f = "typesLoop L b ctx w env q qTypes st"
  have s: "length (sink (flowState ?f)) \<le> length (sink st) + length qTypes"
    by (rule typesLoop_len)
  show ?case
  proof (cases ?f)
    case (Next st1)
    then show ?thesis using Cons[of st1] s by simp
  next
    case (Return st1)
    then show ?thesis using s by simp
  next
    case (Panic st1)
    then show ?thesis using s by simp
  qed
qed

subsection \<open>The outer loop\<close>

lemma outerLoop_exit:
  "\<not> (i < Count b \<or> Duration b \<noteq> 0) \<Longrightarrow>
     outerLoop fuel L b ctx w env questions qTypes i st = Some (Return st)"
  by simp

lemma outerLoop_0:
  "i < Count b \<or> Duration b \<noteq> 0 \<Longrightarrow>
     outerLoop 0 L b ctx w env questions qTypes i st = None"
  by simp

lemma outerLoop_Suc:
  "i < Count b \<or> Duration b \<noteq> 0 \<Longrightarrow>
     outerLoop (Suc fuel) L b ctx w env questions qTypes i st =
       (case questionsLoop L b ctx w env questions qTypes st of
          Next st1 \<Rightarrow> outerLoop fuel L b ctx w env questions qTypes (i + 1) st1
        | Return st1 \<Rightarrow> Some (Return st1)
        | Panic st1 \<Rightarrow> Some (Panic st1))"
  by simp

declare outerLoop.simps [simp del]

lemma outerLoop_len:
  assumes "Duration b = 0"
  shows "outerLoop fuel L b ctx w env questions qTypes i st = Some f \<Longrightarrow>
     length (sink (flowState f))
       \<le> length (sink st) + nat (Count b - i) * (length questions * length qTypes)"
proof (induction fuel arbitrary: i st)
  case 0
  then show ?case using assms
    by (cases "i < Count b") (auto simp: outerLoop_0 outerLoop_exit)
next
  case (Suc fuel)
  show ?case
  proof (cases "i < Count b")
    case False
    then show ?thesis using Suc.prems assms by (auto simp: outerLoop_exit)
  next
    case True
    let ?g = "questionsLoop L b ctx w env questions qTypes st"
    have s: "length (sink (flowState ?g)) \<le> length (sink st) + length questions * length qTypes"
      by (rule questionsLoop_len)
    have n: "nat (Count b - i) = Suc (nat (Count b - (i + 1)))" using True by simp
    show ?thesis
    proof (cases ?g)
      case (Next st1)
      then have "outerLoop fuel L b ctx w env questions qTypes (i + 1) st1 = Some f"
        using Suc.prems True by (simp add: outerLoop_Suc)
      from Suc.IH[OF this] show ?thesis using s Next n by simp
    next
      case (Return st1)
      then have "f = Return st1" using Suc.prems True by (auto simp: outerLoop_Suc)
      then show ?thesis using s Return by (simp add: n)
    next
      case (Panic st1)
      then have "f = Panic st1" using Suc.prems True by (auto simp: outerLoop_Suc)
      then show ?thesis using s Panic by (simp add: n)
    qed
  qed
qed

lemma sinkOf_Some: "sinkOf (Some f) = sink (flowState f)"
  by (cases f) (simp_all add: sinkOf_def)

lemma worker_sinkOf_len:
  assumes "Duration b = 0"
  shows "length (sinkOf (worker fuel L b ctx questions qTypes we w))
           \<le> nat (Count b) * (length questions * length qTypes)"
proof (cases "worker fuel L b ctx questions qTypes we w")
  case None
  then show ?thesis by (simp add: sinkOf_def)
next
  case (Some f)
  then show ?thesis
    using outerLoop_len[OF assms Some[unfolded worker_def]] by (simp add: sinkOf_Some)
qed

subsection \<open>A step that nothing disturbs\<close>

lemma delay_defined: "delayDefined b \<Longrightarrow> \<exists>w g. delay L b r = Some (w, g)"
  by (auto simp: delay_def delayDefined_def split: prod.splits)

lemma guard_quiet:
  assumes "neverCancelled ctx env" "clockMonotone env" "0 \<le> RequestTimeout b"
  shows "\<not> (case Deadline (WithTimeout ctx (timeoutNow (env k)) (RequestTimeout b)) of
             None \<Rightarrow> False | Some deadline \<Rightarrow> startTime (env k) > deadline)"
proof -
  have a: "startTime (env k) \<le> timeoutNow (env k)"
    using assms(2) by (simp add: clockMonotone_def)
  have b: "case Deadline ctx of None \<Rightarrow> True | Some d \<Rightarrow> startTime (env k) \<le> d"
    using assms(1) by (simp add: neverCancelled_def)
  show ?thesis using a b assms(3)
    by (auto simp: WithTimeout_def Let_def split: option.splits if_splits)
qed

lemma dispatch_quiet:
  assumes nc: "neverCancelled ctx env" and cm: "clockMonotone env" and rt: "0 \<le> RequestTimeout b"
    and tp: "tapDefined b env" and dd: "delayDefined b"
    and br: "EdnsOpt b = [] \<or> checkEdnsOpt (EdnsOpt b) = None"
  shows "\<exists>st1. dispatch L b ctx w (env k) q qt st = Next st1
            \<and> length (sink st1) = Suc (length (sink st)) \<and> tick st1 = tick st"
proof -
  obtain rq where rq: "buildRequest b (globalIntn (env k)) q qt = Some rq" "Question rq \<noteq> []"
    using buildRequest_valid[OF br] by auto
  note g = guard_quiet[OF nc cm rt, of k]
  have mp: "measureProm L b rq (queryResp (env k)) d e evs \<noteq> None" for d e evs
    using tp rq(2) unfolding measureProm_None_iff tapDefined_def
    by (auto split: option.splits dest: spec[of _ k])
  let ?e = "queryErr (env k)" and ?resp = "queryResp (env k)" and ?dur = "sinceStart (env k)"
  let ?st1 = "(if RequestLogEnabled b
                then st\<lparr>logged := logged st @ [(w, rq, ?resp, ?e, ?dur)]\<rparr> else st)"
  let ?st2 = "?st1\<lparr>sink := record_result (sink ?st1) rq ?resp ?e (startTime (env k)) ?dur\<rparr>"
  obtain evs where evs: "measureProm L b rq ?resp ?dur ?e (prom ?st2) = Some evs"
    using mp by blast
  obtain wt gn where dl: "delay L b (rando ?st2) = Some (wt, gn)"
    using delay_defined[OF dd] by blast
  have "dispatch L b ctx w (env k) q qt st =
     Next (?st2\<lparr>prom := evs, rando := gn,
               waited := waited ?st2 @ (case wt of None \<Rightarrow> [] | Some d \<Rightarrow> [d])\<rparr>)"
    using rq(1) g evs dl by (simp add: dispatch_def Let_def)
  then show ?thesis by (auto simp: record_result_def)
qed

lemma step_quiet:
  assumes nc: "neverCancelled ctx env" and cm: "clockMonotone env" and rt: "0 \<le> RequestTimeout b"
    and tp: "tapDefined b env" and dd: "delayDefined b"
    and br: "EdnsOpt b = [] \<or> checkEdnsOpt (EdnsOpt b) = None"
    and pr: "1 \<le> Probability b" and fl: "\<forall>g. fst (Float64 L g) < 1"
  shows "\<exists>st1. step L b ctx w (env k) q qt st = Next st1
            \<and> length (sink st1) = Suc (length (sink st)) \<and> tick st1 = tick st"
proof -
  obtain u g where ug: "Float64 L (rando st) = (u, g)" by (cases "Float64 L (rando st)")
  then have "u < 1" using fl by (metis fst_conv)
  then have nu: "\<not> u > Probability b" using pr by simp
  have c: "\<not> ctxErr (env k)" "\<not> limitDone (env k)" "\<not> workerLimitDone (env k)"
    using nc by (simp_all add: neverCancelled_def)
  have "step L b ctx w (env k) q qt st = dispatch L b ctx w (env k) q qt (st\<lparr>rando := g\<rparr>)"
    using ug nu c by (simp add: step_def checkLimit_def)
  then show ?thesis
    using dispatch_quiet[OF nc cm rt tp dd br, of L w k q qt "st\<lparr>rando := g\<rparr>"] by simp
qed

lemma typesLoop_quiet:
  assumes nc: "neverCancelled ctx env" and cm: "clockMonotone env" and rt: "0 \<le> RequestTimeout b"
    and tp: "tapDefined b env" and dd: "delayDefined b"
    and br: "EdnsOpt b = [] \<or> checkEdnsOpt (EdnsOpt b) = None"
    and pr: "1 \<le> Probability b" and fl: "\<forall>g. fst (Float64 L g) < 1"
  shows "\<exists>st1. typesLoop L b ctx w env q qTypes st = Next st1
            \<and> length (sink st1) = length (sink st) + length qTypes"
proof (induction qTypes arbitrary: st)
  case Nil
  then show ?case by simp
next
  case (Cons qt qTypes)
  obtain st1 where s: "step L b ctx w (env (tick st)) q qt (st\<lparr>tick := Suc (tick st)\<rparr>) = Next st1"
      "length (sink st1) = Suc (length (sink st))"
    using step_quiet[OF nc cm rt tp dd br pr fl, of w "tick st" q qt "st\<lparr>tick := Suc (tick st)\<rparr>"]
    by auto
  obtain st2 where "typesLoop L b ctx w env q qTypes st1 = Next st2"
      "length (sink st2) = length (sink st1) + length qTypes"
    using Cons[of st1] by auto
  then show ?case using s by simp
qed

lemma questionsLoop_quiet:
  assumes nc: "neverCancelled ctx env" and cm: "clockMonotone env" and rt: "0 \<le> RequestTimeout b"
    and tp: "tapDefined b env" and dd: "delayDefined b"
    and br: "EdnsOpt b = [] \<or> checkEdnsOpt (EdnsOpt b) = None"
    and pr: "1 \<le> Probability b" and fl: "\<forall>g. fst (Float64 L g) < 1"
  shows "\<exists>st1. questionsLoop L b ctx w env questions qTypes st = Next st1
            \<and> length (sink st1) = length (sink st) + length questions * length qTypes"
proof (induction questions arbitrary: st)
  case Nil
  then show ?case by simp
next
  case (Cons q questions)
  obtain st1 where s: "typesLoop L b ctx w env q qTypes st = Next st1"
      "length (sink st1) = length (sink st) + length qTypes"
    using typesLoop_quiet[OF nc cm rt tp dd br pr fl, of w q qTypes st] by auto
  obtain st2 where "questionsLoop L b ctx w env questions qTypes st1 = Next st2"
      "length (sink st2) = length (sink st1) + length questions * length qTypes"
    using Cons[of st1] by auto
  then show ?case using s by simp
qed

lemma outerLoop_quiet:
  assumes nc: "neverCancelled ctx env" and cm: "clockMonotone env" and rt: "0 \<le> RequestTimeout b"
    and tp: "tapDefined b env" and dd: "delayDefined b"
    and br: "EdnsOpt b = [] \<or> checkEdnsOpt (EdnsOpt b) = None"
    and pr: "1 \<le> Probability b" and fl: "\<forall>g. fst (Float64 L g) < 1"
    and du: "Duration b = 0"
  shows "nat (Count b - i) \<le> fuel \<Longrightarrow>
     \<exists>st1. outerLoop fuel L b ctx w env questions qTypes i st = Some (Return st1)
        \<and> length (sink st1)
            = length (sink st) + nat (Count b - i) * (length questions * length qTypes)"
proof (induction fuel arbitrary: i st)
  case 0
  then have "\<not> (i < Count b \<or> Duration b \<noteq> 0)" using du by simp
  then show ?case using 0 by (simp add: outerLoop_exit)
next
  case (Suc fuel)
  show ?case
  proof (cases "i < Count b")
    case False
    then show ?thesis using du by (simp add: outerLoop_exit)
  next
    case True
    obtain st1 where s: "questionsLoop L b ctx w env questions qTypes st = Next st1"
        "length (sink st1) = length (sink st) + length questions * length qTypes"
      using questionsLoop_quiet[OF nc cm rt tp dd br pr fl, of w questions qTypes st] by auto
    have n: "nat (Count b - i) = Suc (nat (Count b - (i + 1)))" using True by simp
    then have "nat (Count b - (i + 1)) \<le> fuel" using Suc.prems by simp
    from Suc.IH[OF this, of st1] obtain st2 where
      "outerLoop fuel L b ctx w env questions qTypes (i + 1) st1 = Some (Return st2)"
      "length (sink st2)
         = length (sink st1) + nat (Count b - (i + 1)) * (length questions * length qTypes)"
      by auto
    then show ?thesis using True s n by (simp add: outerLoop_Suc)
  qed
qed

section \<open>Runs\<close>

subsection \<open>The number of records in counted mode (C1)\<close>

lemma sum_list_bound:
  assumes "\<And>x. x \<in> set xs \<Longrightarrow> f x \<le> (c::nat)"
  shows "sum_list (map f xs) \<le> length xs * c"
  using assms by (induction xs) (auto simp: add_mono)

lemma sum_list_const:
  assumes "\<And>x. x \<in> set xs \<Longrightarrow> f x = (c::nat)"
  shows "sum_list (map f xs) = length xs * c"
  using assms by (induction xs) auto

lemma wait_Stats: "wait rs = Stats ss \<Longrightarrow> ss = map sinkOf rs"
  by (auto simp: wait_def split: if_splits)

lemma Run_workers:
  assumes "init L b0 = Inr b" "prepareQuestions (httpGet W) b = Inr questions" "Duration b = 0"
    "\<not> (RequestLogEnabled b \<and> openLogFails W)"
  shows "Run fuel L W ctx b0 =
     wait (map (\<lambda>w. worker fuel L b ctx questions (map (StringToType L) (Types b)) (workerEnv W w) w)
               [0 ..< Concurrency b])"
  using assms by (auto simp: Run_def Let_def)

lemma Run_Stats_log:
  assumes "init L b0 = Inr b" "Run fuel L W ctx b0 = Stats ss"
  shows "\<not> (RequestLogEnabled b \<and> openLogFails W)"
  using assms by (auto simp: Run_def Let_def split: if_splits)

lemma Run_total_bound:
  assumes i: "init L b0 = Inr b" and du: "Duration b = 0"
    and pq: "prepareQuestions (httpGet W) b = Inr questions"
    and r: "Run fuel L W ctx b0 = Stats ss"
  shows "sum_list (map length ss)
           \<le> Concurrency b * (nat (Count b) * (length questions * length (Types b)))"
proof -
  let ?T = "map (StringToType L) (Types b)"
  let ?c = "nat (Count b) * (length questions * length ?T)"
  let ?rs = "map (\<lambda>w. worker fuel L b ctx questions ?T (workerEnv W w) w) [0 ..< Concurrency b]"
  have "Run fuel L W ctx b0 = wait ?rs"
    using Run_workers[OF i pq du Run_Stats_log[OF i r]] .
  then have "wait ?rs = Stats ss" using r by simp
  then have ss: "ss = map sinkOf ?rs" by (rule wait_Stats)
  have "sum_list (map length ss) \<le> length ss * ?c"
  proof (rule sum_list_bound)
    fix x assume "x \<in> set ss"
    then obtain w where "x = sinkOf (worker fuel L b ctx questions ?T (workerEnv W w) w)"
      using ss by auto
    then show "length x \<le> ?c"
      using worker_sinkOf_len[OF du, of fuel L ctx questions ?T "workerEnv W w" w] by simp
  qed
  moreover have "length ss = Concurrency b" using ss by simp
  ultimately show ?thesis by simp
qed

lemma Run_total_eq:
  assumes i: "init L b0 = Inr b" and du: "Duration b = 0"
    and pq: "prepareQuestions (httpGet W) b = Inr questions"
    and pr: "1 \<le> Probability b" and fl: "\<forall>g. fst (Float64 L g) < 1"
    and rt: "0 \<le> RequestTimeout b"
    and fr: "requestDelayStart b0 = 0" "requestDelayEnd b0 = 0"
    and lg: "\<not> (RequestLogEnabled b \<and> openLogFails W)"
    and q: "\<forall>w. neverCancelled ctx (observe (workerEnv W w))
              \<and> clockMonotone (observe (workerEnv W w))
              \<and> tapDefined b (observe (workerEnv W w))"
    and fu: "nat (Count b) \<le> fuel"
  shows "\<exists>ss. Run fuel L W ctx b0 = Stats ss \<and> length ss = Concurrency b
           \<and> (\<forall>s \<in> set ss. length s = nat (Count b) * (length questions * length (Types b)))"
proof -
  let ?T = "map (StringToType L) (Types b)"
  let ?c = "nat (Count b) * (length questions * length ?T)"
  let ?rs = "map (\<lambda>w. worker fuel L b ctx questions ?T (workerEnv W w) w) [0 ..< Concurrency b]"
  have run: "Run fuel L W ctx b0 = wait ?rs" using Run_workers[OF i pq du lg] .
  have wk: "\<exists>st. worker fuel L b ctx questions ?T (workerEnv W w) w = Some (Return st)
                \<and> length (sink st) = ?c" for w
  proof -
    let ?env = "observe (workerEnv W w)"
    let ?st0 = "\<lparr>sink = [], rando = rand_New (unixNano (workerEnv W w)), tick = 0, prom = [],
                 waited = [], logged = []\<rparr>"
    have f0: "nat (Count b - 0) \<le> fuel" using fu by simp
    have q1: "neverCancelled ctx ?env" and q2: "clockMonotone ?env" and q3: "tapDefined b ?env"
      using q by blast+
    have "\<exists>st1. outerLoop fuel L b ctx w ?env questions ?T 0 ?st0 = Some (Return st1)
         \<and> length (sink st1)
             = length (sink ?st0) + nat (Count b - 0) * (length questions * length ?T)"
      by (rule outerLoop_quiet[OF q1 q2 rt q3 init_delayDefined[OF i fr] init_checked[OF i]
            pr fl du f0])
    then show ?thesis by (auto simp: worker_def)
  qed
  have "\<not> isPanic (worker fuel L b ctx questions ?T (workerEnv W w) w)" for w
    using wk[of w] by (auto simp: isPanic_def)
  then have np: "\<not> list_ex isPanic ?rs"
    by (simp add: list_ex_iff)
  have "worker fuel L b ctx questions ?T (workerEnv W w) w \<noteq> None" for w
    using wk[of w] by auto
  then have nn: "\<not> list_ex (\<lambda>r. r = None) ?rs"
    unfolding list_ex_iff by (metis (mono_tags, lifting) imageE list.set_map)
  have st: "wait ?rs = Stats (map sinkOf ?rs)" using np nn by (simp add: wait_def)
  have each: "length s = ?c" if "s \<in> set (map sinkOf ?rs)" for s
  proof -
    from that obtain w where "s = sinkOf (worker fuel L b ctx questions ?T (workerEnv W w) w)"
      by auto
    then show ?thesis using wk[of w] by (auto simp: sinkOf_def)
  qed
  show ?thesis
  proof (intro exI[of _ "map sinkOf ?rs"] conjI ballI)
    show "Run fuel L W ctx b0 = Stats (map sinkOf ?rs)" using run st by simp
    show "length (map sinkOf ?rs) = Concurrency b" by simp
    fix s assume "s \<in> set (map sinkOf ?rs)"
    then show "length s = nat (Count b) * (length questions * length (Types b))"
      using each[of s] by simp
  qed
qed

lemma product_int:
  assumes "0 < (c::int)"
  shows "int (w * (nat c * (q * t))) = c * int w * int t * int q"
  using assms by simp

text \<open>
  C1, as the code has it. In counted mode (the count positive and the duration
  zero after \<^verbatim>\<open>init\<close>) a run that returns statistics has recorded at most
  count * W * |Types| * |Questions| queries, whatever the workers observed. It
  returns, and every worker has recorded exactly count * |Types| * |Questions|
  queries, so that the total is the product, when the probability is 1 (or more,
  the draws being below 1), the shared context is never cancelled, the request
  timeout is not negative, the internal delay fields were zero before the run, the
  request log could be opened and the telemetry tap is defined (C10).
\<close>

theorem Run_counted_total:
  assumes i: "init L b0 = Inr b" and du: "Duration b = 0" and cn: "0 < Count b"
    and pq: "prepareQuestions (httpGet W) b = Inr questions"
  shows "(\<forall>fuel ss. Run fuel L W ctx b0 = Stats ss \<longrightarrow>
            int (sum_list (map length ss))
              \<le> Count b * int (Concurrency b) * int (length (Types b)) * int (length questions))
       \<and> (1 \<le> Probability b \<and> (\<forall>g. fst (Float64 L g) < 1) \<and> 0 \<le> RequestTimeout b
            \<and> requestDelayStart b0 = 0 \<and> requestDelayEnd b0 = 0
            \<and> \<not> (RequestLogEnabled b \<and> openLogFails W)
            \<and> (\<forall>w. neverCancelled ctx (observe (workerEnv W w))
                   \<and> clockMonotone (observe (workerEnv W w))
                   \<and> tapDefined b (observe (workerEnv W w)))
          \<longrightarrow> (\<forall>fuel. nat (Count b) \<le> fuel \<longrightarrow>
                 (\<exists>ss. Run fuel L W ctx b0 = Stats ss \<and> length ss = Concurrency b
                    \<and> (\<forall>s \<in> set ss. int (length s)
                          = Count b * int (length (Types b)) * int (length questions))
                    \<and> int (sum_list (map length ss))
                        = Count b * int (Concurrency b) * int (length (Types b))
                            * int (length questions))))"
proof (intro conjI allI impI)
  fix fuel ss
  assume r: "Run fuel L W ctx b0 = Stats ss"
  have "int (sum_list (map length ss))
      \<le> int (Concurrency b * (nat (Count b) * (length questions * length (Types b))))"
    using Run_total_bound[OF i du pq r] by (rule of_nat_mono)
  then show "int (sum_list (map length ss))
              \<le> Count b * int (Concurrency b) * int (length (Types b)) * int (length questions)"
    by (simp only: product_int[OF cn])
next
  fix fuel
  assume h: "1 \<le> Probability b \<and> (\<forall>g. fst (Float64 L g) < 1) \<and> 0 \<le> RequestTimeout b
            \<and> requestDelayStart b0 = 0 \<and> requestDelayEnd b0 = 0
            \<and> \<not> (RequestLogEnabled b \<and> openLogFails W)
            \<and> (\<forall>w. neverCancelled ctx (observe (workerEnv W w))
                   \<and> clockMonotone (observe (workerEnv W w))
                   \<and> tapDefined b (observe (workerEnv W w)))"
    and fu: "nat (Count b) \<le> fuel"
  from h have pr: "1 \<le> Probability b" and fl: "\<forall>g. fst (Float64 L g) < 1"
      and rt: "0 \<le> RequestTimeout b"
      and fr: "requestDelayStart b0 = 0" "requestDelayEnd b0 = 0"
      and lg: "\<not> (RequestLogEnabled b \<and> openLogFails W)"
      and q: "\<forall>w. neverCancelled ctx (observe (workerEnv W w))
                   \<and> clockMonotone (observe (workerEnv W w))
                   \<and> tapDefined b (observe (workerEnv W w))"
    by blast+
  from Run_total_eq[OF i du pq pr fl rt fr lg q fu]
  obtain ss where ss: "Run fuel L W ctx b0 = Stats ss" "length ss = Concurrency b"
      "\<forall>s \<in> set ss. length s = nat (Count b) * (length questions * length (Types b))"
    by blast
  have e1: "int (length s) = Count b * int (length (Types b)) * int (length questions)"
    if "s \<in> set ss" for s
  proof -
    have "int (length s) = int (1 * (nat (Count b) * (length questions * length (Types b))))"
      using ss(3) that by simp
    also have "\<dots> = Count b * int 1 * int (length (Types b)) * int (length questions)"
      by (rule product_int[OF cn])
    finally show ?thesis by simp
  qed
  have "sum_list (map length ss)
      = length ss * (nat (Count b) * (length questions * length (Types b)))"
    by (rule sum_list_const) (use ss(3) in blast)
  then have "int (sum_list (map length ss))
      = int (Concurrency b * (nat (Count b) * (length questions * length (Types b))))"
    using ss(2) by simp
  then have e2: "int (sum_list (map length ss))
      = Count b * int (Concurrency b) * int (length (Types b)) * int (length questions)"
    by (simp only: product_int[OF cn])
  show "\<exists>ss. Run fuel L W ctx b0 = Stats ss \<and> length ss = Concurrency b
           \<and> (\<forall>s \<in> set ss. int (length s)
                 = Count b * int (length (Types b)) * int (length questions))
           \<and> int (sum_list (map length ss))
               = Count b * int (Concurrency b) * int (length (Types b)) * int (length questions)"
    using ss(1,2) e1 e2 by blast
qed

lemma prepareQuestions_example:
  "prepareQuestions (httpGet exampleWorld) (exampleBenchmark\<lparr>Server := sv, HistMax := h\<rparr>)
     = Inr [''example.com.'']"
  by (simp add: prepareQuestions_def exampleBenchmark_def isHTTPUrl_def HasPrefix_def Fqdn_def
      IsFqdn_def)

lemma example_quiet:
  "neverCancelled exampleCtx (\<lambda>k. exampleObs)" "clockMonotone (\<lambda>k. exampleObs)"
  by (simp_all add: neverCancelled_def clockMonotone_def exampleObs_def exampleCtx_def)

text \<open>
  The witness is the first scenario of the specification: count 3, concurrency 2,
  one question, one type; two workers with three records each, six in all.
\<close>

theorem Run_counted_total_witness:
  "\<exists>ss. Run 3 exampleLib exampleWorld exampleCtx exampleBenchmark = Stats ss
      \<and> length ss = 2 \<and> list_all (\<lambda>s. length s = 3) ss
      \<and> sum_list (map length ss) = 6"
proof -
  let ?nb = "exampleBenchmark\<lparr>Server := ''8.8.8.8:53'', HistMax := 5000000000\<rparr>"
  have du: "Duration ?nb = 0" and cn: "0 < Count ?nb" by (simp_all add: exampleBenchmark_def)
  have pq: "prepareQuestions (httpGet exampleWorld) ?nb = Inr [''example.com.'']"
    by (rule prepareQuestions_example)
  have h: "1 \<le> Probability ?nb \<and> (\<forall>g. fst (Float64 exampleLib g) < 1) \<and> 0 \<le> RequestTimeout ?nb
            \<and> requestDelayStart exampleBenchmark = 0 \<and> requestDelayEnd exampleBenchmark = 0
            \<and> \<not> (RequestLogEnabled ?nb \<and> openLogFails exampleWorld)
            \<and> (\<forall>w. neverCancelled exampleCtx (observe (workerEnv exampleWorld w))
                   \<and> clockMonotone (observe (workerEnv exampleWorld w))
                   \<and> tapDefined ?nb (observe (workerEnv exampleWorld w)))"
    using example_quiet
    by (simp add: exampleBenchmark_def exampleLib_def exampleWorld_def tapDefined_def)
  have f: "nat (Count ?nb) \<le> 3" by (simp add: exampleBenchmark_def)
  from Run_counted_total[OF init_example du cn pq, of exampleCtx] h f
  obtain ss where ss: "Run 3 exampleLib exampleWorld exampleCtx exampleBenchmark = Stats ss"
      "length ss = Concurrency ?nb"
      "\<forall>s \<in> set ss. int (length s) = Count ?nb * int (length (Types ?nb)) * int (length [''example.com.''])"
      "int (sum_list (map length ss))
         = Count ?nb * int (Concurrency ?nb) * int (length (Types ?nb)) * int (length [''example.com.''])"
    by blast
  have "length ss = 2" using ss(2) by (simp add: exampleBenchmark_def)
  moreover have "list_all (\<lambda>s. length s = 3) ss"
    using ss(3) by (simp add: exampleBenchmark_def list_all_iff)
  moreover have "sum_list (map length ss) = 6"
    using ss(4) by (simp add: exampleBenchmark_def)
  ultimately show ?thesis using ss(1) by blast
qed

text \<open>
  C1, as it is stated, fails: with a probability of 1 and a shared context that is
  never cancelled, a request timeout of minus one second makes the context of every
  request expire before its start time, the transport fails, the guard of line 478
  ends each worker at its first step, and the run records nothing where the claim
  gives 3 * 2 * 1 * 1 = 6 records.
\<close>

theorem Run_expired_requests_unrecorded:
  "Count expiredBenchmark = 3 \<and> Duration expiredBenchmark = 0
   \<and> Concurrency expiredBenchmark = 2 \<and> Types expiredBenchmark = [''A'']
   \<and> Queries expiredBenchmark = [''example.com''] \<and> Probability expiredBenchmark = 1
   \<and> neverCancelled exampleCtx (observe (workerEnv expiredWorld 0))
   \<and> neverCancelled exampleCtx (observe (workerEnv expiredWorld 1))
   \<and> Run 3 exampleLib expiredWorld exampleCtx expiredBenchmark = Stats [[], []]"
proof -
  have "Run 3 exampleLib expiredWorld exampleCtx expiredBenchmark = Stats [[], []]"
    by code_simp
  moreover have "neverCancelled exampleCtx (observe (workerEnv expiredWorld w))" for w
    by (simp add: neverCancelled_def expiredWorld_def expiredObs_def exampleObs_def exampleCtx_def)
  ultimately show ?thesis
    by (simp add: expiredBenchmark_def exampleBenchmark_def)
qed

subsection \<open>Termination of a worker (C3)\<close>

lemma questionsLoop_no_types: "questionsLoop L b ctx w env questions [] st = Next st"
  by (induction questions) simp_all

lemma questionsLoop_idle:
  "questions = [] \<or> qTypes = [] \<Longrightarrow> questionsLoop L b ctx w env questions qTypes st = Next st"
  by (auto simp: questionsLoop_no_types)

text \<open>
  With a duration and nothing to ask, the outer loop never reaches the check of the
  context, which is inside the innermost loop: whatever number of passes is allowed,
  the worker has not ended.
\<close>

lemma outerLoop_spins:
  assumes "Duration b \<noteq> 0" "questions = [] \<or> qTypes = []"
  shows "outerLoop fuel L b ctx w env questions qTypes i st = None"
proof (induction fuel arbitrary: i)
  case 0
  then show ?case using assms(1) by (simp add: outerLoop_0)
next
  case (Suc fuel)
  then show ?case using assms by (simp add: outerLoop_Suc questionsLoop_idle)
qed

lemma worker_spins:
  assumes "Duration b \<noteq> 0" "questions = [] \<or> qTypes = []"
  shows "worker fuel L b ctx questions qTypes we w = None"
  using outerLoop_spins[OF assms] by (simp add: worker_def)

text \<open>
  What does hold. In counted mode a worker ends within \<open>count\<close> passes of the
  outer loop, for every list of questions and of types.
\<close>

lemma outerLoop_counted_returns:
  assumes "Duration b = 0"
  shows "nat (Count b - i) \<le> fuel
           \<Longrightarrow> outerLoop fuel L b ctx w env questions qTypes i st \<noteq> None"
proof (induction fuel arbitrary: i st)
  case 0
  then show ?case using assms by (simp add: outerLoop_exit)
next
  case (Suc fuel)
  show ?case
  proof (cases "i < Count b")
    case False
    then show ?thesis using assms by (simp add: outerLoop_exit)
  next
    case True
    then have "nat (Count b - (i + 1)) \<le> fuel" using Suc.prems by simp
    from Suc.IH[OF this] show ?thesis using True
      by (simp add: outerLoop_Suc split: flow.splits)
  qed
qed

lemma worker_counted_returns:
  assumes "Duration b = 0" "nat (Count b) \<le> fuel"
  shows "worker fuel L b ctx questions qTypes we w \<noteq> None"
  using outerLoop_counted_returns[OF assms(1), of 0 fuel] assms(2) by (simp add: worker_def)

text \<open>
  The steps of a worker before its \<open>k\<close>-th observation, when that observation finds
  the context cancelled: a loop that goes on has not reached it, and the sink has
  grown by no more than the number of observations taken.
\<close>

lemma step_cancelled: "ctxErr ob \<Longrightarrow> step L b ctx w ob q qt st = Return st"
  by (simp add: step_def)

lemma typesLoop_progress:
  "typesLoop L b ctx w env q qTypes st = Next st1 \<Longrightarrow> tick st1 = tick st + length qTypes"
proof (induction qTypes arbitrary: st)
  case Nil
  then show ?case by simp
next
  case (Cons qt qTypes)
  let ?f = "step L b ctx w (env (tick st)) q qt (st\<lparr>tick := Suc (tick st)\<rparr>)"
  have t: "tick (flowState ?f) = Suc (tick st)"
    using step_tick[of L b ctx w "env (tick st)" q qt "st\<lparr>tick := Suc (tick st)\<rparr>"] by simp
  show ?case
  proof (cases ?f)
    case (Next st2)
    then have "typesLoop L b ctx w env q qTypes st2 = Next st1" using Cons.prems by simp
    from Cons.IH[OF this] show ?thesis using t Next by simp
  next
    case (Return st2)
    then show ?thesis using Cons.prems by simp
  next
    case (Panic st2)
    then show ?thesis using Cons.prems by simp
  qed
qed

lemma questionsLoop_progress:
  "questionsLoop L b ctx w env questions qTypes st = Next st1
     \<Longrightarrow> tick st1 = tick st + length questions * length qTypes"
proof (induction questions arbitrary: st)
  case Nil
  then show ?case by simp
next
  case (Cons q questions)
  show ?case
  proof (cases "typesLoop L b ctx w env q qTypes st")
    case (Next st2)
    then have "questionsLoop L b ctx w env questions qTypes st2 = Next st1"
      using Cons.prems by simp
    from Cons.IH[OF this] show ?thesis using typesLoop_progress[OF Next] by simp
  next
    case (Return st2)
    then show ?thesis using Cons.prems by simp
  next
    case (Panic st2)
    then show ?thesis using Cons.prems by simp
  qed
qed

lemma before_trans:
  assumes "before k st (Next st1)" "before k st1 f"
  shows "before k st f"
  using assms by (auto simp: before_def split: flow.splits)

lemma step_before:
  assumes "ctxErr (env k)" "tick st \<le> k"
  shows "before k st (step L b ctx w (env (tick st)) q qt (st\<lparr>tick := Suc (tick st)\<rparr>))"
proof (cases "tick st = k")
  case True
  then show ?thesis using assms(1) by (simp add: step_cancelled before_def)
next
  case False
  then have lt: "tick st < k" using assms(2) by simp
  let ?f = "step L b ctx w (env (tick st)) q qt (st\<lparr>tick := Suc (tick st)\<rparr>)"
  have l: "length (sink (flowState ?f)) \<le> Suc (length (sink st))"
    using step_len[of L b ctx w "env (tick st)" q qt "st\<lparr>tick := Suc (tick st)\<rparr>"] by simp
  have t: "tick (flowState ?f) = Suc (tick st)"
    using step_tick[of L b ctx w "env (tick st)" q qt "st\<lparr>tick := Suc (tick st)\<rparr>"] by simp
  show ?thesis using l t lt by (cases ?f) (auto simp: before_def)
qed

lemma typesLoop_before:
  assumes "ctxErr (env k)"
  shows "tick st \<le> k \<Longrightarrow> before k st (typesLoop L b ctx w env q qTypes st)"
proof (induction qTypes arbitrary: st)
  case Nil
  then show ?case by (simp add: before_def)
next
  case (Cons qt qTypes)
  let ?f = "step L b ctx w (env (tick st)) q qt (st\<lparr>tick := Suc (tick st)\<rparr>)"
  have s: "before k st ?f" using step_before[where env=env and k=k, OF assms Cons.prems] .
  show ?case
  proof (cases ?f)
    case (Next st1)
    then have "tick st1 \<le> k" using s by (simp add: before_def)
    from Cons.IH[OF this] have "before k st1 (typesLoop L b ctx w env q qTypes st1)" .
    then show ?thesis using s Next before_trans by simp
  next
    case (Return st1)
    then show ?thesis using s by simp
  next
    case (Panic st1)
    then show ?thesis using s by simp
  qed
qed

lemma questionsLoop_before:
  assumes "ctxErr (env k)"
  shows "tick st \<le> k \<Longrightarrow> before k st (questionsLoop L b ctx w env questions qTypes st)"
proof (induction questions arbitrary: st)
  case Nil
  then show ?case by (simp add: before_def)
next
  case (Cons q questions)
  let ?f = "typesLoop L b ctx w env q qTypes st"
  have s: "before k st ?f" using typesLoop_before[where env=env and k=k, OF assms Cons.prems] .
  show ?case
  proof (cases ?f)
    case (Next st1)
    then have "tick st1 \<le> k" using s by (simp add: before_def)
    from Cons.IH[OF this]
    have "before k st1 (questionsLoop L b ctx w env questions qTypes st1)" .
    then show ?thesis using s Next before_trans by simp
  next
    case (Return st1)
    then show ?thesis using s by simp
  next
    case (Panic st1)
    then show ?thesis using s by simp
  qed
qed

text \<open>
  With a question and a type to ask, a worker whose \<open>k\<close>-th observation finds the
  context cancelled ends within \<open>k + 1\<close> passes of the outer loop, in either mode.
\<close>

lemma outerLoop_cancelled_returns:
  assumes c: "ctxErr (env k)" and ne: "questions \<noteq> []" "qTypes \<noteq> []"
  shows "tick st \<le> k \<Longrightarrow> k < tick st + fuel
           \<Longrightarrow> outerLoop fuel L b ctx w env questions qTypes i st \<noteq> None"
proof (induction fuel arbitrary: i st)
  case 0
  then show ?case by simp
next
  case (Suc fuel)
  show ?case
  proof (cases "i < Count b \<or> Duration b \<noteq> 0")
    case False
    then show ?thesis by (simp add: outerLoop_exit)
  next
    case True
    let ?g = "questionsLoop L b ctx w env questions qTypes st"
    have s: "before k st ?g"
      using questionsLoop_before[where env=env and k=k, OF c Suc.prems(1)] .
    show ?thesis
    proof (cases ?g)
      case (Next st1)
      have t: "tick st1 \<le> k" using s Next by (simp add: before_def)
      have "0 < length questions * length qTypes" using ne by simp
      then have "tick st < tick st1" using questionsLoop_progress[OF Next] by simp
      then have "k < tick st1 + fuel" using Suc.prems(2) by simp
      from Suc.IH[OF t this] show ?thesis using True Next by (simp add: outerLoop_Suc)
    next
      case (Return st1)
      then show ?thesis using True by (simp add: outerLoop_Suc)
    next
      case (Panic st1)
      then show ?thesis using True by (simp add: outerLoop_Suc)
    qed
  qed
qed

lemma worker_cancelled_returns:
  assumes "ctxErr (observe we k)" "questions \<noteq> []" "qTypes \<noteq> []" "k < fuel"
  shows "worker fuel L b ctx questions qTypes we w \<noteq> None"
  using outerLoop_cancelled_returns[where env="observe we" and k=k, OF assms(1,2,3), of _ fuel]
    assms(4)
  by (simp add: worker_def)

lemma init_emptyBenchmark:
  "init exampleLib emptyBenchmark
     = Inr (emptyBenchmark\<lparr>Server := ''8.8.8.8:53'', HistMax := 5000000000\<rparr>)"
  by (simp add: init_def init_server_def init_count_def init_edns_def init_delay_def
      parseRequestDelay_def emptyBenchmark_def exampleBenchmark_def exampleLib_def isHTTPUrl_def
      HasPrefix_def addPortIfMissing_def JoinHostPort_def Let_def)

text \<open>
  C3 at its failing input: a run for one second with an empty list of questions.
  \<^verbatim>\<open>init\<close> and \<^verbatim>\<open>prepareQuestions\<close> succeed, and however many passes of the outer
  loop the workers are given, \<^verbatim>\<open>Run\<close> is still waiting for them: no worker ends,
  although the claim covers empty question lists and the context is cancelled after
  the second.
\<close>

theorem Run_spins_without_questions:
  "\<forall>fuel W ctx. Run fuel exampleLib W ctx emptyBenchmark = Running"
proof (intro allI)
  fix fuel :: nat and W :: world and ctx :: Context
  let ?nb = "emptyBenchmark\<lparr>Server := ''8.8.8.8:53'', HistMax := 5000000000\<rparr>"
  have d: "Duration ?nb \<noteq> 0" by (simp add: emptyBenchmark_def)
  have p: "prepareQuestions (httpGet W) ?nb = Inr []"
    by (simp add: prepareQuestions_def emptyBenchmark_def)
  have w: "worker fuel exampleLib ?nb c [] ts we k = None" for c ts we k
    by (rule worker_spins[OF d]) simp
  have c: "Concurrency ?nb = 2" "\<not> RequestLogEnabled ?nb"
    by (simp_all add: emptyBenchmark_def exampleBenchmark_def)
  have u: "[0 ..< 2] = [0, Suc 0]" by code_simp
  have "Run fuel exampleLib W ctx emptyBenchmark = wait [None, None]"
    by (simp add: Run_def init_emptyBenchmark p w Let_def c u)
  then show "Run fuel exampleLib W ctx emptyBenchmark = Running"
    by (simp add: wait_def isPanic_def)
qed

subsection \<open>Cancellation and records (C2)\<close>

lemma WithTimeout_Some: "\<exists>d. Deadline (WithTimeout ctx now t) = Some d"
  by (auto simp: WithTimeout_def Let_def split: option.splits)

lemma dispatch_guarded:
  assumes "queryErr ob \<noteq> None" "buildRequest b (globalIntn ob) q qt \<noteq> None"
    "Deadline (WithTimeout ctx (timeoutNow ob) (RequestTimeout b)) = Some d" "d < startTime ob"
  shows "dispatch L b ctx w ob q qt st = Return st"
  using assms by (auto simp: dispatch_def Let_def)

lemma dispatch_records:
  assumes "buildRequest b (globalIntn ob) q qt = Some rq"
    "\<not> (queryErr ob \<noteq> None
        \<and> (\<exists>d. Deadline (WithTimeout ctx (timeoutNow ob) (RequestTimeout b)) = Some d
                \<and> d < startTime ob))"
  shows "sink (flowState (dispatch L b ctx w ob q qt st))
           = sink st @ [\<lparr>request = rq, response = queryResp ob, err = queryErr ob,
                         start = startTime ob, duration = sinceStart ob\<rparr>]"
proof -
  obtain d where d: "Deadline (WithTimeout ctx (timeoutNow ob) (RequestTimeout b)) = Some d"
    using WithTimeout_Some by blast
  then have g: "\<not> (queryErr ob \<noteq> None \<and> startTime ob > d)" using assms(2) by auto
  show ?thesis using assms(1) d g
    by (auto simp: dispatch_def Let_def record_result_def split: option.splits prod.splits)
qed

lemma step_limited:
  assumes "\<not> ctxErr ob" "\<not> Probability b < fst (Float64 L (rando st))"
    "Rate b > 0 \<and> limitDone ob \<or> RateLimitWorker b > 0 \<and> workerLimitDone ob"
  shows "\<exists>st1. step L b ctx w ob q qt st = Return st1 \<and> sink st1 = sink st"
  using assms by (auto simp: step_def checkLimit_def Let_def split: prod.splits)

lemma outerLoop_before:
  assumes "ctxErr (env k)"
  shows "tick st \<le> k \<Longrightarrow> outerLoop fuel L b ctx w env questions qTypes i st = Some f
           \<Longrightarrow> length (sink (flowState f)) + tick st \<le> length (sink st) + k"
proof (induction fuel arbitrary: i st)
  case 0
  then show ?case
    by (cases "i < Count b \<or> Duration b \<noteq> 0") (auto simp: outerLoop_0 outerLoop_exit)
next
  case (Suc fuel)
  show ?case
  proof (cases "i < Count b \<or> Duration b \<noteq> 0")
    case False
    then show ?thesis using Suc.prems by (auto simp: outerLoop_exit)
  next
    case True
    let ?g = "questionsLoop L b ctx w env questions qTypes st"
    have s: "before k st ?g"
      using questionsLoop_before[where env=env and k=k, OF assms Suc.prems(1)] .
    show ?thesis
    proof (cases ?g)
      case (Next st1)
      then have o: "outerLoop fuel L b ctx w env questions qTypes (i + 1) st1 = Some f"
        using Suc.prems(2) True by (simp add: outerLoop_Suc)
      have t: "tick st1 \<le> k" "length (sink st1) + tick st \<le> length (sink st) + tick st1"
        using s Next by (simp_all add: before_def)
      from Suc.IH[OF t(1) o] show ?thesis using t(2) by simp
    next
      case (Return st1)
      then have "f = Return st1" using Suc.prems(2) True by (auto simp: outerLoop_Suc)
      then show ?thesis using s Return by (simp add: before_def)
    next
      case (Panic st1)
      then have "f = Panic st1" using Suc.prems(2) True by (auto simp: outerLoop_Suc)
      then show ?thesis using s Panic by (simp add: before_def)
    qed
  qed
qed

lemma worker_cancelled_len:
  assumes "ctxErr (observe we k)"
  shows "length (sinkOf (worker fuel L b ctx questions qTypes we w)) \<le> k"
proof (cases "worker fuel L b ctx questions qTypes we w")
  case None
  then show ?thesis by (simp add: sinkOf_def)
next
  case (Some f)
  then show ?thesis
    using outerLoop_before[where env="observe we" and k=k, OF assms _ Some[unfolded worker_def]]
    by (simp add: sinkOf_Some)
qed

text \<open>
  C2, as the code has it. A step that finds the shared context cancelled at the
  check of line 427 ends the worker with its sink as it was, and so does a step
  whose acquire of a limiter is cancelled. A request that failed and whose start
  time is after the deadline of its context is not recorded and ends the worker
  (the guard of line 478). Every other request that was dispatched is recorded,
  with its response and its error, also when it fails because the context was
  cancelled while it was in flight. A worker whose \<open>k\<close>-th observation finds the
  context cancelled ends with at most \<open>k\<close> records: none from that step or a
  later one.
\<close>

theorem cancellation_and_records:
  "(ctxErr ob \<longrightarrow> step L b ctx w ob q qt st = Return st)
   \<and> (\<not> ctxErr ob \<and> \<not> Probability b < fst (Float64 L (rando st))
        \<and> (Rate b > 0 \<and> limitDone ob \<or> RateLimitWorker b > 0 \<and> workerLimitDone ob)
       \<longrightarrow> (\<exists>st1. step L b ctx w ob q qt st = Return st1 \<and> sink st1 = sink st))
   \<and> (queryErr ob \<noteq> None \<and> buildRequest b (globalIntn ob) q qt \<noteq> None
        \<and> (\<exists>d. Deadline (WithTimeout ctx (timeoutNow ob) (RequestTimeout b)) = Some d
                \<and> d < startTime ob)
       \<longrightarrow> dispatch L b ctx w ob q qt st = Return st)
   \<and> (buildRequest b (globalIntn ob) q qt = Some rq
        \<and> \<not> (queryErr ob \<noteq> None
              \<and> (\<exists>d. Deadline (WithTimeout ctx (timeoutNow ob) (RequestTimeout b)) = Some d
                      \<and> d < startTime ob))
       \<longrightarrow> sink (flowState (dispatch L b ctx w ob q qt st))
             = sink st @ [\<lparr>request = rq, response = queryResp ob, err = queryErr ob,
                           start = startTime ob, duration = sinceStart ob\<rparr>])
   \<and> (ctxErr (observe we k)
       \<longrightarrow> length (sinkOf (worker fuel L b ctx questions qTypes we w)) \<le> k)"
proof (intro conjI impI)
  assume "ctxErr ob"
  then show "step L b ctx w ob q qt st = Return st" by (rule step_cancelled)
next
  assume "\<not> ctxErr ob \<and> \<not> Probability b < fst (Float64 L (rando st))
        \<and> (Rate b > 0 \<and> limitDone ob \<or> RateLimitWorker b > 0 \<and> workerLimitDone ob)"
  then show "\<exists>st1. step L b ctx w ob q qt st = Return st1 \<and> sink st1 = sink st"
    using step_limited by blast
next
  assume "queryErr ob \<noteq> None \<and> buildRequest b (globalIntn ob) q qt \<noteq> None
        \<and> (\<exists>d. Deadline (WithTimeout ctx (timeoutNow ob) (RequestTimeout b)) = Some d
                \<and> d < startTime ob)"
  then show "dispatch L b ctx w ob q qt st = Return st"
    using dispatch_guarded by blast
next
  assume "buildRequest b (globalIntn ob) q qt = Some rq
        \<and> \<not> (queryErr ob \<noteq> None
              \<and> (\<exists>d. Deadline (WithTimeout ctx (timeoutNow ob) (RequestTimeout b)) = Some d
                      \<and> d < startTime ob))"
  then show "sink (flowState (dispatch L b ctx w ob q qt st))
             = sink st @ [\<lparr>request = rq, response = queryResp ob, err = queryErr ob,
                           start = startTime ob, duration = sinceStart ob\<rparr>]"
    using dispatch_records by blast
next
  assume "ctxErr (observe we k)"
  then show "length (sinkOf (worker fuel L b ctx questions qTypes we w)) \<le> k"
    by (rule worker_cancelled_len)
qed

theorem cancellation_and_records_witness:
  "step exampleLib exampleBenchmark exampleCtx 0 (exampleObs\<lparr>ctxErr := True\<rparr>)
      ''example.com.'' 1 freshState = Return freshState
   \<and> (\<exists>st1. step exampleLib (exampleBenchmark\<lparr>Rate := 10\<rparr>) exampleCtx 0
                (exampleObs\<lparr>limitDone := True\<rparr>) ''example.com.'' 1 freshState = Return st1
            \<and> sink st1 = sink freshState)
   \<and> dispatch exampleLib expiredBenchmark exampleCtx 0 expiredObs ''example.com.'' 1 freshState
        = Return freshState
   \<and> sink (flowState (dispatch exampleLib lateBenchmark \<lparr>Deadline = Some 100\<rparr> 0 inflightObs
                          ''example.com.'' 1 freshState)) = [lateRecord]
   \<and> length (sinkOf (worker 2 exampleLib lateBenchmark \<lparr>Deadline = Some 100\<rparr>
                        [''example.com.''] [1] (workerEnv lateWorld 0) 0)) \<le> 1"
proof -
  have rq: "buildRequest (exampleBenchmark\<lparr>Count := c, Duration := d, RequestTimeout := t\<rparr>)
               4660 ''example.com.'' 1 = Some exampleRequest" for c d t
    by (simp add: buildRequest_def exampleBenchmark_def exampleRequest_def Let_def)
  have a: "step exampleLib exampleBenchmark exampleCtx 0 (exampleObs\<lparr>ctxErr := True\<rparr>)
      ''example.com.'' 1 freshState = Return freshState"
    using cancellation_and_records[where ob="exampleObs\<lparr>ctxErr := True\<rparr>" and L=exampleLib
        and b=exampleBenchmark and ctx=exampleCtx and w=0 and q="''example.com.''" and qt=1
        and st=freshState]
    by simp
  have b: "\<exists>st1. step exampleLib (exampleBenchmark\<lparr>Rate := 10\<rparr>) exampleCtx 0
                (exampleObs\<lparr>limitDone := True\<rparr>) ''example.com.'' 1 freshState = Return st1
            \<and> sink st1 = sink freshState"
    using cancellation_and_records[where ob="exampleObs\<lparr>limitDone := True\<rparr>" and L=exampleLib
        and b="exampleBenchmark\<lparr>Rate := 10\<rparr>" and ctx=exampleCtx and w=0
        and q="''example.com.''" and qt=1 and st=freshState]
    by (simp add: exampleObs_def exampleBenchmark_def exampleLib_def freshState_def rand_New_def)
  have c: "dispatch exampleLib expiredBenchmark exampleCtx 0 expiredObs ''example.com.'' 1 freshState
        = Return freshState"
    using cancellation_and_records[where ob=expiredObs and L=exampleLib
        and b=expiredBenchmark and ctx=exampleCtx and w=0 and q="''example.com.''" and qt=1
        and st=freshState]
      rq[where c=3 and d=0 and t="- 1000000000"]
    by (simp add: expiredObs_def exampleObs_def expiredBenchmark_def exampleBenchmark_def
        exampleCtx_def WithTimeout_def)
  have d: "sink (flowState (dispatch exampleLib lateBenchmark \<lparr>Deadline = Some 100\<rparr> 0 inflightObs
                          ''example.com.'' 1 freshState)) = [lateRecord]"
    using cancellation_and_records[where ob=inflightObs and L=exampleLib
        and b=lateBenchmark and ctx="\<lparr>Deadline = Some 100\<rparr>" and w=0 and q="''example.com.''"
        and qt=1 and st=freshState and rq=exampleRequest]
      rq[where c=0 and d=100 and t=5000000000]
    by (simp add: inflightObs_def lateBenchmark_def exampleBenchmark_def WithTimeout_def
        lateRecord_def freshState_def)
  have e: "length (sinkOf (worker 2 exampleLib lateBenchmark \<lparr>Deadline = Some 100\<rparr>
                        [''example.com.''] [1] (workerEnv lateWorld 0) 0)) \<le> 1"
    using cancellation_and_records[where we="workerEnv lateWorld 0" and k=1 and fuel=2
        and L=exampleLib and b=lateBenchmark and ctx="\<lparr>Deadline = Some 100\<rparr>"
        and questions="[''example.com.'']" and qTypes="[1]" and w=0]
    by (simp add: lateWorld_def exampleWorld_def exampleObs_def)
  show ?thesis using a b c d e by blast
qed

text \<open>
  C2, as it is stated, fails. In a run of 100 ns the deadline of the shared context
  is 100; each worker starts a request at 95, the transport returns its error 10 ns
  later, and the worker records it, at 105 or later: a record made after the shared
  context was cancelled, for a request that was in flight when it was cancelled and
  whose result arrived afterwards.
\<close>

theorem late_failure_is_recorded:
  "Deadline (WithTimeout exampleCtx (runNow lateWorld) (Duration lateBenchmark)) = Some 100
   \<and> Run 2 exampleLib lateWorld exampleCtx lateBenchmark = Stats [[lateRecord], [lateRecord]]
   \<and> err lateRecord \<noteq> None
   \<and> 100 < start lateRecord + duration lateRecord"
proof -
  have "Run 2 exampleLib lateWorld exampleCtx lateBenchmark = Stats [[lateRecord], [lateRecord]]"
    by code_simp
  then show ?thesis
    by (simp add: WithTimeout_def exampleCtx_def lateWorld_def exampleWorld_def lateBenchmark_def
        lateRecord_def)
qed

subsection \<open>The random sources of a worker (C7)\<close>

lemma step_skips:
  assumes "\<not> ctxErr ob" "Probability b < fst (Float64 L (rando st))"
  shows "step L b ctx w ob q qt st = Next (st\<lparr>rando := snd (Float64 L (rando st))\<rparr>)"
proof -
  obtain u g where ug: "Float64 L (rando st) = (u, g)" by (cases "Float64 L (rando st)")
  then show ?thesis using assms by (simp add: step_def Let_def)
qed

lemma delay_interval:
  assumes "0 < requestDelayStart b" "requestDelayStart b < requestDelayEnd b"
  shows "delay L b g = Some (Some (fst (Int63n L g (requestDelayEnd b - requestDelayStart b))
                                     + requestDelayStart b),
                             snd (Int63n L g (requestDelayEnd b - requestDelayStart b)))"
  using assms by (simp add: delay_def split: prod.splits)

lemma privateDraws_append:
  "privateDraws L b g (ds @ es) =
     (case privateDraws L b g ds of
        (ws, g1) \<Rightarrow> (case privateDraws L b g1 es of (vs, g2) \<Rightarrow> (ws @ vs, g2)))"
  by (induction L b g ds rule: privateDraws.induct) (auto split: prod.splits)

lemma continues_refl: "continues L b st st"
  unfolding continues_def by (intro exI[of _ "[]"]) simp

lemma continues_trans:
  assumes "continues L b st st1" "continues L b st1 st2"
  shows "continues L b st st2"
proof -
  obtain ds ws where a: "privateDraws L b (rando st) ds = (ws, rando st1)"
      "waited st1 = waited st @ ws"
    using assms(1) unfolding continues_def by blast
  obtain es vs where c: "privateDraws L b (rando st1) es = (vs, rando st2)"
      "waited st2 = waited st1 @ vs"
    using assms(2) unfolding continues_def by blast
  have "privateDraws L b (rando st) (ds @ es) = (ws @ vs, rando st2)"
    by (simp add: privateDraws_append a c)
  moreover have "waited st2 = waited st @ (ws @ vs)" using a c by simp
  ultimately show ?thesis unfolding continues_def by blast
qed

lemma continues_same:
  assumes "rando st' = rando st" "waited st' = waited st"
  shows "continues L b st st'"
  unfolding continues_def using assms by (intro exI[of _ "[]"]) simp

lemma continues_draw:
  assumes "rando st' = snd (Float64 L (rando st))" "waited st' = waited st"
  shows "continues L b st st'"
  unfolding continues_def using assms by (intro exI[of _ "[ProbabilityDraw]"]) simp

lemma delay_cases:
  assumes "delay L b g = Some (w, g')"
  shows "(0 < requestDelayStart b \<and> requestDelayStart b < requestDelayEnd b
       \<and> w = Some (fst (Int63n L g (requestDelayEnd b - requestDelayStart b)) + requestDelayStart b)
       \<and> g' = snd (Int63n L g (requestDelayEnd b - requestDelayStart b)))
     \<or> (0 < requestDelayStart b \<and> requestDelayEnd b \<le> 0 \<and> w = Some (requestDelayStart b) \<and> g' = g)
     \<or> (requestDelayStart b \<le> 0 \<and> w = None \<and> g' = g)"
  using assms by (auto simp: delay_def split: if_splits prod.splits)

lemma delay_continues:
  assumes "delay L b (rando st) = Some (w, g')"
    "rando st' = g'" "waited st' = waited st @ (case w of None \<Rightarrow> [] | Some d \<Rightarrow> [d])"
  shows "continues L b st st'"
proof -
  consider
    (uniform) "w = Some (fst (Int63n L (rando st) (requestDelayEnd b - requestDelayStart b))
                  + requestDelayStart b)"
      "g' = snd (Int63n L (rando st) (requestDelayEnd b - requestDelayStart b))"
    | (fixed) "w = Some (requestDelayStart b)" "g' = rando st"
    | (none) "w = None" "g' = rando st"
    using delay_cases[OF assms(1)] by blast
  then show ?thesis
  proof cases
    case uniform
    then show ?thesis unfolding continues_def using assms(2,3)
      by (intro exI[of _ "[UniformDelay]"]) (simp split: prod.splits)
  next
    case fixed
    then show ?thesis unfolding continues_def using assms(2,3)
      by (intro exI[of _ "[ConstantDelay]"]) simp
  next
    case none
    then show ?thesis using assms(2,3) by (intro continues_same) simp_all
  qed
qed

lemma dispatch_continues:
  "continues L b st (flowState (dispatch L b ctx w ob q qt st))"
proof (cases "dispatch L b ctx w ob q qt st")
  case (Return st')
  then have "rando st' = rando st \<and> waited st' = waited st"
    by (auto simp: dispatch_def Let_def split: option.splits if_splits prod.splits)
  then show ?thesis using Return by (simp add: continues_same)
next
  case (Panic st')
  then have "rando st' = rando st \<and> waited st' = waited st"
    by (auto simp: dispatch_def Let_def split: option.splits if_splits prod.splits)
  then show ?thesis using Panic by (simp add: continues_same)
next
  case (Next st')
  then obtain w' g' where "delay L b (rando st) = Some (w', g')" "rando st' = g'"
      "waited st' = waited st @ (case w' of None \<Rightarrow> [] | Some d \<Rightarrow> [d])"
    by (auto simp: dispatch_def Let_def split: option.splits if_splits prod.splits)
  then show ?thesis using Next delay_continues by simp
qed

lemma step_continues:
  "continues L b st (flowState (step L b ctx w ob q qt st))"
proof (cases "ctxErr ob")
  case True
  then show ?thesis by (simp add: step_def continues_refl)
next
  case False
  obtain u g where ug: "Float64 L (rando st) = (u, g)" by (cases "Float64 L (rando st)")
  let ?st1 = "st\<lparr>rando := g\<rparr>"
  have a: "continues L b st ?st1" by (rule continues_draw) (simp_all add: ug)
  have "flowState (step L b ctx w ob q qt st) = ?st1
      \<or> flowState (step L b ctx w ob q qt st) = flowState (dispatch L b ctx w ob q qt ?st1)"
    using False by (simp add: step_def ug Let_def)
  then show ?thesis
    using a continues_trans[OF a dispatch_continues[of L b ?st1 ctx w ob q qt]] by auto
qed

text \<open>
  An invariant of the states that every pass through the loop body keeps is kept
  by the three loops, so it holds of the state a worker ends in.
\<close>

lemma typesLoop_invariant:
  assumes "\<And>k q qt st. I st \<Longrightarrow> I (flowState (step L b ctx w (env k) q qt (st\<lparr>tick := Suc (tick st)\<rparr>)))"
  shows "I st \<Longrightarrow> I (flowState (typesLoop L b ctx w env q qTypes st))"
proof (induction qTypes arbitrary: st)
  case Nil
  then show ?case by simp
next
  case (Cons qt qTypes)
  have s: "I (flowState (step L b ctx w (env (tick st)) q qt (st\<lparr>tick := Suc (tick st)\<rparr>)))"
    using assms Cons.prems by blast
  show ?case
  proof (cases "step L b ctx w (env (tick st)) q qt (st\<lparr>tick := Suc (tick st)\<rparr>)")
    case (Next st1)
    then show ?thesis using s Cons.IH[of st1] by simp
  next
    case (Return st1)
    then show ?thesis using s by simp
  next
    case (Panic st1)
    then show ?thesis using s by simp
  qed
qed

lemma questionsLoop_invariant:
  assumes "\<And>k q qt st. I st \<Longrightarrow> I (flowState (step L b ctx w (env k) q qt (st\<lparr>tick := Suc (tick st)\<rparr>)))"
  shows "I st \<Longrightarrow> I (flowState (questionsLoop L b ctx w env questions qTypes st))"
proof (induction questions arbitrary: st)
  case Nil
  then show ?case by simp
next
  case (Cons q questions)
  have s: "I (flowState (typesLoop L b ctx w env q qTypes st))"
    using typesLoop_invariant[of I L b ctx w env, OF assms Cons.prems] .
  show ?case
  proof (cases "typesLoop L b ctx w env q qTypes st")
    case (Next st1)
    then show ?thesis using s Cons.IH[of st1] by simp
  next
    case (Return st1)
    then show ?thesis using s by simp
  next
    case (Panic st1)
    then show ?thesis using s by simp
  qed
qed

lemma outerLoop_invariant:
  assumes "\<And>k q qt st. I st \<Longrightarrow> I (flowState (step L b ctx w (env k) q qt (st\<lparr>tick := Suc (tick st)\<rparr>)))"
  shows "I st \<Longrightarrow> outerLoop fuel L b ctx w env questions qTypes i st = Some f \<Longrightarrow> I (flowState f)"
proof (induction fuel arbitrary: i st)
  case 0
  then show ?case
    by (cases "i < Count b \<or> Duration b \<noteq> 0") (simp_all add: outerLoop_0 outerLoop_exit, auto)
next
  case (Suc fuel)
  show ?case
  proof (cases "i < Count b \<or> Duration b \<noteq> 0")
    case False
    then show ?thesis using Suc.prems by (auto simp: outerLoop_exit)
  next
    case True
    have s: "I (flowState (questionsLoop L b ctx w env questions qTypes st))"
      using questionsLoop_invariant[of I L b ctx w env, OF assms Suc.prems(1)] .
    show ?thesis
    proof (cases "questionsLoop L b ctx w env questions qTypes st")
      case (Next st1)
      then show ?thesis using s Suc.IH[of st1 "i + 1"] Suc.prems(2) True
        by (simp add: outerLoop_Suc)
    next
      case (Return st1)
      then have "outerLoop (Suc fuel) L b ctx w env questions qTypes i st = Some (Return st1)"
        using True by (simp add: outerLoop_Suc)
      then have "f = Return st1" using Suc.prems(2) by simp
      then show ?thesis using s Return by simp
    next
      case (Panic st1)
      then have "outerLoop (Suc fuel) L b ctx w env questions qTypes i st = Some (Panic st1)"
        using True by (simp add: outerLoop_Suc)
      then have "f = Panic st1" using Suc.prems(2) by simp
      then show ?thesis using s Panic by simp
    qed
  qed
qed

lemma worker_draws:
  assumes "worker fuel L b ctx questions qTypes we w = Some f"
  shows "\<exists>ds. privateDraws L b (rand_New (unixNano we)) ds
            = (waited (flowState f), rando (flowState f))"
proof -
  let ?st0 = "\<lparr>sink = [], rando = rand_New (unixNano we), tick = 0, prom = [], waited = [],
      logged = []\<rparr>"
  have step: "\<And>k q qt st. continues L b ?st0 st \<Longrightarrow>
      continues L b ?st0 (flowState (step L b ctx w (observe we k) q qt (st\<lparr>tick := Suc (tick st)\<rparr>)))"
  proof -
    fix k q qt st
    assume a: "continues L b ?st0 st"
    have "continues L b st (st\<lparr>tick := Suc (tick st)\<rparr>)" by (rule continues_same) simp_all
    from continues_trans[OF continues_trans[OF a this] step_continues]
    show "continues L b ?st0
        (flowState (step L b ctx w (observe we k) q qt (st\<lparr>tick := Suc (tick st)\<rparr>)))" .
  qed
  have "continues L b ?st0 (flowState f)"
    using outerLoop_invariant[of "continues L b ?st0" L b ctx w "observe we", OF step continues_refl]
      assms unfolding worker_def by blast
  then show ?thesis by (simp add: continues_def)
qed

lemma buildRequest_Id:
  "buildRequest b intn q qt
     = map_option (\<lambda>m. m\<lparr>Id_m := requestId b intn\<rparr>) (buildRequest b 0 q qt)"
  by (simp add: buildRequest_def addEdnsOpt_def SetEdns0_def IsEdns0_def updOPT_def Let_def
      requestId_def split: option.splits)

lemma buildRequest_requestId:
  assumes "buildRequest b intn q qt = Some rq"
  shows "Id_m rq = requestId b intn"
  using assms buildRequest_Id[of b intn q qt] by auto

lemma buildRequest_withoutId:
  "map_option (\<lambda>m. m\<lparr>Id_m := 0\<rparr>) (buildRequest b n q qt)
     = map_option (\<lambda>m. m\<lparr>Id_m := 0\<rparr>) (buildRequest b n' q qt)"
  by (simp add: buildRequest_Id[of b n] buildRequest_Id[of b n'] option.map_comp comp_def)

lemma measureProm_Id:
  "measureProm L b (m\<lparr>Id_m := x\<rparr>) resp dur e evs = measureProm L b m resp dur e evs"
  by (simp add: measureProm_def Let_def split: option.splits)

lemma dispatch_Next:
  assumes "dispatch L b ctx w ob q qt st = Next st'"
  shows "\<exists>rq d. buildRequest b (globalIntn ob) q qt = Some rq
      \<and> sink st' = sink st @ [\<lparr>request = rq, response = queryResp ob, err = queryErr ob,
                                 start = startTime ob, duration = sinceStart ob\<rparr>]
      \<and> delay L b (rando st) = Some (d, rando st')
      \<and> waited st' = waited st @ (case d of None \<Rightarrow> [] | Some t \<Rightarrow> [t])"
  using assms
  by (auto simp: dispatch_def Let_def record_result_def split: option.splits if_splits prod.splits)

lemma dispatch_record:
  "sink (flowState (dispatch L b ctx w ob q qt st)) = sink st
   \<or> (\<exists>r. sink (flowState (dispatch L b ctx w ob q qt st)) = sink st @ [r]
          \<and> Id_m (request r) = requestId b (globalIntn ob))"
proof (cases "buildRequest b (globalIntn ob) q qt")
  case None
  then show ?thesis by (simp add: dispatch_def)
next
  case (Some rq)
  have "Id_m rq = requestId b (globalIntn ob)" using Some by (rule buildRequest_requestId)
  then show ?thesis using Some
    by (auto simp: dispatch_def Let_def record_result_def split: option.splits prod.splits)
qed

lemma step_record:
  "sink (flowState (step L b ctx w ob q qt st)) = sink st
   \<or> (\<exists>r. sink (flowState (step L b ctx w ob q qt st)) = sink st @ [r]
          \<and> Id_m (request r) = requestId b (globalIntn ob))"
  using dispatch_record[of L b ctx w ob q qt "st\<lparr>rando := snd (Float64 L (rando st))\<rparr>"]
  by (auto simp: step_def Let_def split: prod.splits)

lemma step_Next:
  assumes "\<not> ctxErr ob" "\<not> Probability b < fst (Float64 L (rando st))"
    "step L b ctx w ob q qt st = Next st'"
  shows "\<exists>r d. sink st' = sink st @ [r] \<and> Id_m (request r) = requestId b (globalIntn ob)
      \<and> delay L b (snd (Float64 L (rando st))) = Some (d, rando st')
      \<and> waited st' = waited st @ (case d of None \<Rightarrow> [] | Some t \<Rightarrow> [t])"
proof -
  let ?st1 = "st\<lparr>rando := snd (Float64 L (rando st))\<rparr>"
  have "dispatch L b ctx w ob q qt ?st1 = Next st'"
    using assms by (auto simp: step_def Let_def split: prod.splits if_splits)
  from dispatch_Next[OF this] obtain rq d where
    r: "buildRequest b (globalIntn ob) q qt = Some rq"
      "sink st' = sink ?st1 @ [\<lparr>request = rq, response = queryResp ob, err = queryErr ob,
                                 start = startTime ob, duration = sinceStart ob\<rparr>]"
      "delay L b (rando ?st1) = Some (d, rando st')"
      "waited st' = waited ?st1 @ (case d of None \<Rightarrow> [] | Some t \<Rightarrow> [t])"
    by blast
  have "Id_m rq = requestId b (globalIntn ob)" using r(1) by (rule buildRequest_requestId)
  then show ?thesis using r by simp
qed

lemma worker_ids:
  assumes "worker fuel L b ctx questions qTypes we w = Some f"
  shows "\<forall>r \<in> set (sink (flowState f)).
           \<exists>k. Id_m (request r) = requestId b (globalIntn (observe we k))"
proof -
  let ?I = "\<lambda>st. \<forall>r \<in> set (sink st).
           \<exists>k. Id_m (request r) = requestId b (globalIntn (observe we k))"
  have step: "\<And>k q qt (st :: wstate). ?I st \<Longrightarrow>
      ?I (flowState (step L b ctx w (observe we k) q qt (st\<lparr>tick := Suc (tick st)\<rparr>)))"
  proof -
    fix k q qt and st :: wstate
    assume a: "?I st"
    show "?I (flowState (step L b ctx w (observe we k) q qt (st\<lparr>tick := Suc (tick st)\<rparr>)))"
      using step_record[of L b ctx w "observe we k" q qt "st\<lparr>tick := Suc (tick st)\<rparr>"] a
      by auto
  qed
  have i: "?I \<lparr>sink = [], rando = rand_New (unixNano we), tick = 0, prom = [], waited = [],
      logged = []\<rparr>" by simp
  show ?thesis
    using outerLoop_invariant[of ?I L b ctx w "observe we", OF step i] assms
    unfolding worker_def by blast
qed

text \<open>
  Two runs of the loops on the same questions, by workers with any identifiers,
  from states and under observations that agree but for the identifiers of the
  requests and the values of the global source.
\<close>

lemma withoutIds_eqD:
  assumes "withoutIds st = withoutIds st'"
  shows "map withoutId (sink st) = map withoutId (sink st')" "rando st = rando st'"
    "tick st = tick st'" "prom st = prom st'" "waited st = waited st'"
proof -
  have "sink (withoutIds st) = sink (withoutIds st')" "rando (withoutIds st) = rando (withoutIds st')"
    "tick (withoutIds st) = tick (withoutIds st')" "prom (withoutIds st) = prom (withoutIds st')"
    "waited (withoutIds st) = waited (withoutIds st')"
    using assms by simp_all
  then show "map withoutId (sink st) = map withoutId (sink st')" "rando st = rando st'"
    "tick st = tick st'" "prom st = prom st'" "waited st = waited st'"
    by (simp_all add: withoutIds_def)
qed

lemma withoutIds_eqI:
  assumes "map withoutId (sink st) = map withoutId (sink st')" "rando st = rando st'"
    "tick st = tick st'" "prom st = prom st'" "waited st = waited st'"
  shows "withoutIds st = withoutIds st'"
  using assms by (cases st; cases st') (simp add: withoutIds_def)

lemma withoutIdsF_eq_cases:
  assumes "withoutIdsF f = withoutIdsF f'"
  obtains (Next) st st' where "f = Next st" "f' = Next st'" "withoutIds st = withoutIds st'"
  | (Return) st st' where "f = Return st" "f' = Return st'" "withoutIds st = withoutIds st'"
  | (Panic) st st' where "f = Panic st" "f' = Panic st'" "withoutIds st = withoutIds st'"
  using assms by (cases f; cases f') auto

lemma sameButIntnD:
  assumes "sameButIntn ob ob'"
  shows "ctxErr ob = ctxErr ob'" "limitDone ob = limitDone ob'"
    "workerLimitDone ob = workerLimitDone ob'" "startTime ob = startTime ob'"
    "timeoutNow ob = timeoutNow ob'" "queryResp ob = queryResp ob'" "queryErr ob = queryErr ob'"
    "sinceStart ob = sinceStart ob'"
  using assms by (cases ob; cases ob'; simp add: sameButIntn_def)+

lemma dispatch_withoutIds:
  assumes "withoutIds st = withoutIds st'" "sameButIntn ob ob'"
  shows "withoutIdsF (dispatch L b ctx w ob q qt st) = withoutIdsF (dispatch L b ctx w' ob' q qt st')"
proof (cases "buildRequest b 0 q qt")
  case None
  then have "buildRequest b (globalIntn ob) q qt = None" "buildRequest b (globalIntn ob') q qt = None"
    by (simp_all add: buildRequest_Id[of b "globalIntn ob"] buildRequest_Id[of b "globalIntn ob'"])
  then show ?thesis using assms(1) by (simp add: dispatch_def)
next
  case (Some r0)
  note e = withoutIds_eqD[OF assms(1)]
  note o = sameButIntnD[OF assms(2)]
  have rq: "buildRequest b (globalIntn ob) q qt = Some (r0\<lparr>Id_m := requestId b (globalIntn ob)\<rparr>)"
    "buildRequest b (globalIntn ob') q qt = Some (r0\<lparr>Id_m := requestId b (globalIntn ob')\<rparr>)"
    using Some
    by (simp_all add: buildRequest_Id[of b "globalIntn ob"] buildRequest_Id[of b "globalIntn ob'"])
  show ?thesis
    using e
    by (cases st; cases st')
       (auto simp: dispatch_def Let_def withoutIds_def withoutId_def record_result_def rq o
          measureProm_Id split: option.splits prod.splits)
qed

lemma step_withoutIds:
  assumes "withoutIds st = withoutIds st'" "sameButIntn ob ob'"
  shows "withoutIdsF (step L b ctx w ob q qt st) = withoutIdsF (step L b ctx w' ob' q qt st')"
proof -
  note e = withoutIds_eqD[OF assms(1)]
  note o = sameButIntnD[OF assms(2)]
  obtain u g where ug: "Float64 L (rando st) = (u, g)" by (cases "Float64 L (rando st)")
  have ug': "Float64 L (rando st') = (u, g)" using ug e(2) by simp
  have r: "withoutIds (st\<lparr>rando := g\<rparr>) = withoutIds (st'\<lparr>rando := g\<rparr>)"
    by (rule withoutIds_eqI) (simp_all add: e)
  show ?thesis
    by (auto simp: step_def ug ug' Let_def assms(1) r o
          dispatch_withoutIds[OF r assms(2), of L b ctx w q qt w'])
qed

lemma typesLoop_withoutIds:
  assumes env: "\<And>k. sameButIntn (env k) (env' k)"
  shows "withoutIds st = withoutIds st' \<Longrightarrow>
     withoutIdsF (typesLoop L b ctx w env q qTypes st)
       = withoutIdsF (typesLoop L b ctx w' env' q qTypes st')"
proof (induction qTypes arbitrary: st st')
  case Nil
  then show ?case by simp
next
  case (Cons qt qTypes)
  note e = withoutIds_eqD[OF Cons.prems]
  have r: "withoutIds (st\<lparr>tick := Suc (tick st)\<rparr>) = withoutIds (st'\<lparr>tick := Suc (tick st')\<rparr>)"
    by (rule withoutIds_eqI) (simp_all add: e)
  have "withoutIdsF (step L b ctx w (env (tick st)) q qt (st\<lparr>tick := Suc (tick st)\<rparr>))
      = withoutIdsF (step L b ctx w' (env' (tick st')) q qt (st'\<lparr>tick := Suc (tick st')\<rparr>))"
    using step_withoutIds[OF r env[of "tick st"], of L b ctx w q qt w'] e(3) by simp
  then show ?case
  proof (cases rule: withoutIdsF_eq_cases)
    case (Next st1 st1')
    then show ?thesis using Cons.IH[of st1 st1'] by simp
  next
    case (Return st1 st1')
    then show ?thesis by simp
  next
    case (Panic st1 st1')
    then show ?thesis by simp
  qed
qed

lemma questionsLoop_withoutIds:
  assumes env: "\<And>k. sameButIntn (env k) (env' k)"
  shows "withoutIds st = withoutIds st' \<Longrightarrow>
     withoutIdsF (questionsLoop L b ctx w env questions qTypes st)
       = withoutIdsF (questionsLoop L b ctx w' env' questions qTypes st')"
proof (induction questions arbitrary: st st')
  case Nil
  then show ?case by simp
next
  case (Cons q questions)
  have "withoutIdsF (typesLoop L b ctx w env q qTypes st)
      = withoutIdsF (typesLoop L b ctx w' env' q qTypes st')"
    using typesLoop_withoutIds[of env env', OF env Cons.prems] .
  then show ?case
  proof (cases rule: withoutIdsF_eq_cases)
    case (Next st1 st1')
    then show ?thesis using Cons.IH[of st1 st1'] by simp
  next
    case (Return st1 st1')
    then show ?thesis by simp
  next
    case (Panic st1 st1')
    then show ?thesis by simp
  qed
qed

lemma outerLoop_withoutIds:
  assumes env: "\<And>k. sameButIntn (env k) (env' k)"
  shows "withoutIds st = withoutIds st' \<Longrightarrow>
     map_option withoutIdsF (outerLoop fuel L b ctx w env questions qTypes i st)
       = map_option withoutIdsF (outerLoop fuel L b ctx w' env' questions qTypes i st')"
proof (induction fuel arbitrary: i st st')
  case 0
  then show ?case
    by (cases "i < Count b \<or> Duration b \<noteq> 0") (simp_all add: outerLoop_0 outerLoop_exit)
next
  case (Suc fuel)
  show ?case
  proof (cases "i < Count b \<or> Duration b \<noteq> 0")
    case False
    then show ?thesis using Suc.prems by (simp add: outerLoop_exit)
  next
    case True
    have "withoutIdsF (questionsLoop L b ctx w env questions qTypes st)
        = withoutIdsF (questionsLoop L b ctx w' env' questions qTypes st')"
      using questionsLoop_withoutIds[of env env', OF env Suc.prems] .
    then show ?thesis
    proof (cases rule: withoutIdsF_eq_cases)
      case (Next st1 st1')
      then show ?thesis using Suc.IH[of st1 st1'] True by (simp add: outerLoop_Suc)
    next
      case (Return st1 st1')
      then show ?thesis using True by (simp add: outerLoop_Suc)
    next
      case (Panic st1 st1')
      then show ?thesis using True by (simp add: outerLoop_Suc)
    qed
  qed
qed

lemma worker_withoutIds:
  assumes "unixNano we = unixNano we'" "\<And>k. sameButIntn (observe we k) (observe we' k)"
  shows "map_option withoutIdsF (worker fuel L b ctx questions qTypes we w)
     = map_option withoutIdsF (worker fuel L b ctx questions qTypes we' w')"
  unfolding worker_def
  by (rule outerLoop_withoutIds[of "observe we" "observe we'", OF assms(2)])
     (simp add: assms(1))

text \<open>
  C7, as the code has it. The private generator of a worker is seeded with the
  reading of the clock alone, \<^verbatim>\<open>rand.New(rand.NewSource(time.Now().UnixNano()))\<close>,
  and all a worker draws from it it draws in its own steps: the delays a worker has
  waited and the generator it ends with are what a sequence of probability draws
  and delays gives from the generator seeded with that reading. In each step that
  finds the context alive the probability value is the next \<^verbatim>\<open>Float64\<close> of the
  generator the worker holds, the step is skipped when that value is above the
  probability, and a step that goes on to the next one has recorded one request
  and takes its delay from the generator after the probability draw; a uniform
  delay is the start of the interval plus the next \<^verbatim>\<open>Int63n\<close>. The identifier of a
  request is not drawn from the private generator: every request recorded carries
  0 under QUIC and otherwise a value of \<^verbatim>\<open>rand.Intn\<close>, the source of the process
  that all workers share. Hence two workers, whatever their identifiers, that have
  the same seed and observe the same but for the values of \<^verbatim>\<open>rand.Intn\<close> skip the
  same steps, wait the same delays and end with the same generator, and record the
  same but for the identifiers of the requests.
\<close>

theorem worker_private_generator:
  "(worker fuel L b ctx questions qTypes we w = Some f \<longrightarrow>
      (\<exists>ds. privateDraws L b (rand_New (unixNano we)) ds
               = (waited (flowState f), rando (flowState f)))
      \<and> (\<forall>r \<in> set (sink (flowState f)).
            \<exists>k. Id_m (request r) = requestId b (globalIntn (observe we k))))
   \<and> (\<not> ctxErr ob \<and> Probability b < fst (Float64 L (rando st))
       \<longrightarrow> step L b ctx w ob q qt st = Next (st\<lparr>rando := snd (Float64 L (rando st))\<rparr>))
   \<and> (\<not> ctxErr ob \<and> \<not> Probability b < fst (Float64 L (rando st))
        \<and> step L b ctx w ob q qt st = Next st'
       \<longrightarrow> (\<exists>r d. sink st' = sink st @ [r]
                \<and> Id_m (request r) = requestId b (globalIntn ob)
                \<and> delay L b (snd (Float64 L (rando st))) = Some (d, rando st')
                \<and> waited st' = waited st @ (case d of None \<Rightarrow> [] | Some t \<Rightarrow> [t])))
   \<and> (0 < requestDelayStart b \<and> requestDelayStart b < requestDelayEnd b
       \<longrightarrow> delay L b g
            = Some (Some (fst (Int63n L g (requestDelayEnd b - requestDelayStart b))
                          + requestDelayStart b),
                    snd (Int63n L g (requestDelayEnd b - requestDelayStart b))))
   \<and> (unixNano we = unixNano we' \<and> (\<forall>k. sameButIntn (observe we k) (observe we' k))
       \<longrightarrow> map_option withoutIdsF (worker fuel L b ctx questions qTypes we w)
            = map_option withoutIdsF (worker fuel L b ctx questions qTypes we' w'))"
proof (intro conjI impI)
  assume a: "worker fuel L b ctx questions qTypes we w = Some f"
  show "\<exists>ds. privateDraws L b (rand_New (unixNano we)) ds
               = (waited (flowState f), rando (flowState f))"
    using a by (rule worker_draws)
  show "\<forall>r \<in> set (sink (flowState f)).
            \<exists>k. Id_m (request r) = requestId b (globalIntn (observe we k))"
    using a by (rule worker_ids)
next
  assume "\<not> ctxErr ob \<and> Probability b < fst (Float64 L (rando st))"
  then show "step L b ctx w ob q qt st = Next (st\<lparr>rando := snd (Float64 L (rando st))\<rparr>)"
    using step_skips by blast
next
  assume "\<not> ctxErr ob \<and> \<not> Probability b < fst (Float64 L (rando st))
        \<and> step L b ctx w ob q qt st = Next st'"
  then show "\<exists>r d. sink st' = sink st @ [r]
                \<and> Id_m (request r) = requestId b (globalIntn ob)
                \<and> delay L b (snd (Float64 L (rando st))) = Some (d, rando st')
                \<and> waited st' = waited st @ (case d of None \<Rightarrow> [] | Some t \<Rightarrow> [t])"
    using step_Next by blast
next
  assume "0 < requestDelayStart b \<and> requestDelayStart b < requestDelayEnd b"
  then show "delay L b g
            = Some (Some (fst (Int63n L g (requestDelayEnd b - requestDelayStart b))
                          + requestDelayStart b),
                    snd (Int63n L g (requestDelayEnd b - requestDelayStart b)))"
    using delay_interval by blast
next
  assume "unixNano we = unixNano we' \<and> (\<forall>k. sameButIntn (observe we k) (observe we' k))"
  then show "map_option withoutIdsF (worker fuel L b ctx questions qTypes we w)
            = map_option withoutIdsF (worker fuel L b ctx questions qTypes we' w')"
    using worker_withoutIds by blast
qed

theorem worker_private_generator_witness:
  "(\<exists>ds. privateDraws seededLib delayedBenchmark (rand_New 1) ds = ([102, 104], Rand 1 4))
   \<and> (\<exists>k. requestId delayedBenchmark (globalIntn (observe (intnEnv 7) k)) = 7)
   \<and> step exampleLib (exampleBenchmark\<lparr>Probability := - 1\<rparr>) exampleCtx 0 exampleObs
        ''example.com.'' 1 freshState
       = Next (freshState\<lparr>rando := Rand 1 1\<rparr>)
   \<and> delay seededLib delayedBenchmark (Rand 1 1) = Some (Some 102, Rand 1 2)
   \<and> map_option withoutIdsF
        (worker 2 seededLib delayedBenchmark exampleCtx [''example.com.''] [1] (intnEnv 7) 0)
      = map_option withoutIdsF
        (worker 2 seededLib delayedBenchmark exampleCtx [''example.com.''] [1] (intnEnv 9) 1)"
proof -
  let ?W = "worker 2 seededLib delayedBenchmark exampleCtx [''example.com.''] [1] (intnEnv 7) 0"
  have v: "map_option (\<lambda>f. (waited (flowState f), rando (flowState f),
                           map (\<lambda>r. Id_m (request r)) (sink (flowState f)))) ?W
      = Some ([102, 104], Rand 1 4, [7, 7])"
    by code_simp
  then obtain f where f: "?W = Some f" "waited (flowState f) = [102, 104]"
      "rando (flowState f) = Rand 1 4"
      "map (\<lambda>r. Id_m (request r)) (sink (flowState f)) = [7, 7]"
    by auto
  from f(4) obtain r where r: "r \<in> set (sink (flowState f))" "Id_m (request r) = 7"
    by (cases "sink (flowState f)") auto
  note t = worker_private_generator[where fuel=2 and L=seededLib and b=delayedBenchmark
      and ctx=exampleCtx and questions="[''example.com.'']" and qTypes="[1]" and we="intnEnv 7"
      and w=0 and f=f, THEN conjunct1, rule_format, OF f(1)]
  have a: "\<exists>ds. privateDraws seededLib delayedBenchmark (rand_New 1) ds = ([102, 104], Rand 1 4)"
    using t[THEN conjunct1] by (simp add: f intnEnv_def)
  have b: "\<exists>k. requestId delayedBenchmark (globalIntn (observe (intnEnv 7) k)) = 7"
  proof -
    from t[THEN conjunct2] r(1) obtain k where
      "Id_m (request r) = requestId delayedBenchmark (globalIntn (observe (intnEnv 7) k))"
      by blast
    then show ?thesis using r(2) by (intro exI[of _ k]) simp
  qed
  have c: "step exampleLib (exampleBenchmark\<lparr>Probability := - 1\<rparr>) exampleCtx 0 exampleObs
        ''example.com.'' 1 freshState
       = Next (freshState\<lparr>rando := Rand 1 1\<rparr>)"
    using worker_private_generator[where b="exampleBenchmark\<lparr>Probability := - 1\<rparr>"
        and ob=exampleObs and L=exampleLib and st=freshState and ctx=exampleCtx and w=0
        and q="''example.com.''" and qt=1]
    by (simp add: exampleBenchmark_def exampleObs_def exampleLib_def freshState_def rand_New_def)
  have s: "case step seededLib delayedBenchmark exampleCtx 0 exampleObs ''example.com.'' 1 freshState
      of Next st' \<Rightarrow> waited st' = [102] \<and> rando st' = Rand 1 2 | Return st' \<Rightarrow> False
       | Panic st' \<Rightarrow> False"
    by code_simp
  then obtain st' where st': "step seededLib delayedBenchmark exampleCtx 0 exampleObs
      ''example.com.'' 1 freshState = Next st'" "waited st' = [102]" "rando st' = Rand 1 2"
    by (auto split: flow.splits)
  have h: "\<not> ctxErr exampleObs
      \<and> \<not> Probability delayedBenchmark < fst (Float64 seededLib (rando freshState))
      \<and> step seededLib delayedBenchmark exampleCtx 0 exampleObs ''example.com.'' 1 freshState
          = Next st'"
    using st'(1)
    by (simp add: exampleObs_def delayedBenchmark_def exampleBenchmark_def seededLib_def
        exampleLib_def)
  have "\<exists>r d. sink st' = sink freshState @ [r]
      \<and> Id_m (request r) = requestId delayedBenchmark (globalIntn exampleObs)
      \<and> delay seededLib delayedBenchmark (snd (Float64 seededLib (rando freshState)))
          = Some (d, rando st')
      \<and> waited st' = waited freshState @ (case d of None \<Rightarrow> [] | Some t \<Rightarrow> [t])"
    using worker_private_generator[where L=seededLib and b=delayedBenchmark and ctx=exampleCtx
        and w=0 and ob=exampleObs and q="''example.com.''" and qt=1 and st=freshState
        and st'=st', THEN conjunct2, THEN conjunct2, THEN conjunct1, rule_format, OF h] .
  then obtain d where d: "delay seededLib delayedBenchmark (snd (Float64 seededLib (rando freshState)))
          = Some (d, rando st')" "waited st' = waited freshState @ (case d of None \<Rightarrow> [] | Some t \<Rightarrow> [t])"
    by blast
  have "d = Some 102" using d(2) st'(2) by (cases d) (simp_all add: freshState_def)
  then have e: "delay seededLib delayedBenchmark (Rand 1 1) = Some (Some 102, Rand 1 2)"
    using d(1) st'(3) by (simp add: seededLib_def exampleLib_def freshState_def rand_New_def)
  have g: "map_option withoutIdsF ?W
      = map_option withoutIdsF
        (worker 2 seededLib delayedBenchmark exampleCtx [''example.com.''] [1] (intnEnv 9) 1)"
    using worker_private_generator[where fuel=2 and L=seededLib and b=delayedBenchmark
        and ctx=exampleCtx and questions="[''example.com.'']" and qTypes="[1]" and we="intnEnv 7"
        and w=0 and we'="intnEnv 9" and w'=1]
    by (simp add: intnEnv_def sameButIntn_def)
  show ?thesis using a b c e g by blast
qed

text \<open>
  C7, as it is stated, fails. Two workers that read the same clock value, and so
  have the same seed and the same private generator, and that observe the same but
  for the value of the global \<^verbatim>\<open>rand.Intn\<close>, send different request identifiers:
  the identifiers are not a function of the seed of the worker.
\<close>

theorem request_ids_follow_global_source:
  "unixNano (intnEnv 7) = unixNano (intnEnv 9)
   \<and> map (\<lambda>r. Id_m (request r))
        (sinkOf (worker 3 exampleLib exampleBenchmark exampleCtx [''example.com.''] [1]
                   (intnEnv 7) 0)) = [7, 7, 7]
   \<and> map (\<lambda>r. Id_m (request r))
        (sinkOf (worker 3 exampleLib exampleBenchmark exampleCtx [''example.com.''] [1]
                   (intnEnv 9) 0)) = [9, 9, 9]
   \<and> map_option (\<lambda>f. rando (flowState f))
        (worker 3 exampleLib exampleBenchmark exampleCtx [''example.com.''] [1] (intnEnv 7) 0)
      = map_option (\<lambda>f. rando (flowState f))
        (worker 3 exampleLib exampleBenchmark exampleCtx [''example.com.''] [1] (intnEnv 9) 0)"
proof -
  have a: "map (\<lambda>r. Id_m (request r))
        (sinkOf (worker 3 exampleLib exampleBenchmark exampleCtx [''example.com.''] [1]
                   (intnEnv 7) 0)) = [7, 7, 7]"
    by code_simp
  have b: "map (\<lambda>r. Id_m (request r))
        (sinkOf (worker 3 exampleLib exampleBenchmark exampleCtx [''example.com.''] [1]
                   (intnEnv 9) 0)) = [9, 9, 9]"
    by code_simp
  have c: "map_option (\<lambda>f. rando (flowState f))
        (worker 3 exampleLib exampleBenchmark exampleCtx [''example.com.''] [1] (intnEnv 7) 0)
      = map_option (\<lambda>f. rando (flowState f))
        (worker 3 exampleLib exampleBenchmark exampleCtx [''example.com.''] [1] (intnEnv 9) 0)"
    by code_simp
  show ?thesis using a b c by (simp add: intnEnv_def)
qed

section \<open>The question loader (C8)\<close>

lemma Fqdn_last: "Fqdn s \<noteq> [] \<and> last (Fqdn s) = CHR ''.''"
  by (auto simp: Fqdn_def IsFqdn_def)

lemma entryQuestions_fqdn:
  "q' \<in> set (entryQuestions get i q) \<Longrightarrow> q' \<noteq> [] \<and> last q' = CHR ''.''"
  using Fqdn_last by (auto simp: entryQuestions_def split: if_splits option.splits)

lemma prepareQuestions_loop_step:
  "prepareQuestions_loop get i (q # qs) acc =
     (if entryFails get i q then
        Inl (case get i q of
               None \<Rightarrow> ErrDownload q
             | Some (status, body) \<Rightarrow> ErrDownloadStatus q status)
      else prepareQuestions_loop get (Suc i) qs (acc @ entryQuestions get i q))"
  by (auto simp: entryFails_def entryQuestions_def split: option.splits)

lemma prepareQuestions_loop_Inr:
  "prepareQuestions_loop get i qs acc = Inr out \<longleftrightarrow>
     (\<forall>j < length qs. \<not> entryFails get (i + j) (qs ! j))
     \<and> out = acc @ concat (map (\<lambda>(j, q). entryQuestions get j q) (enumerate i qs))"
proof (induction qs arbitrary: i acc)
  case Nil
  then show ?case by auto
next
  case (Cons q qs)
  have all: "(\<forall>j < length (q # qs). \<not> entryFails get (i + j) ((q # qs) ! j))
      \<longleftrightarrow> \<not> entryFails get i q \<and> (\<forall>j < length qs. \<not> entryFails get (Suc i + j) (qs ! j))"
    by (auto simp: less_Suc_eq_0_disj)
  show ?case
    unfolding prepareQuestions_loop_step all
    using Cons[of "Suc i" "acc @ entryQuestions get i q"]
    by (auto simp del: prepareQuestions_loop.simps)
qed

lemma prepareQuestions_loop_Inl:
  "(\<exists>e. prepareQuestions_loop get i qs acc = Inl e) \<longleftrightarrow>
     (\<exists>j < length qs. entryFails get (i + j) (qs ! j))"
proof -
  have "(\<exists>e. prepareQuestions_loop get i qs acc = Inl e)
      \<longleftrightarrow> \<not> (\<exists>out. prepareQuestions_loop get i qs acc = Inr out)"
    by (cases "prepareQuestions_loop get i qs acc") auto
  then show ?thesis unfolding prepareQuestions_loop_Inr by auto
qed

lemma Split_line:
  "c \<notin> set l \<Longrightarrow> Split (l @ c # rest) c = l # Split rest c"
  by (induction l) (auto split: list.splits)

lemma Split_lines:
  "\<forall>l \<in> set ls. c \<notin> set l \<Longrightarrow> Split (concat (map (\<lambda>l. l @ [c]) ls)) c = ls @ [[]]"
proof (induction ls)
  case Nil
  then show ?case by simp
next
  case (Cons l ls)
  then show ?case using Split_line[of c l "concat (map (\<lambda>l. l @ [c]) ls)"] by simp
qed

lemma ScanLines_lines:
  assumes "list_all (\<lambda>l. CHR 0x0A \<notin> set l \<and> length l < MaxScanTokenSize
                          \<and> (l = [] \<or> last l \<noteq> CHR 0x0D)) ls"
  shows "ScanLines (concat (map (\<lambda>l. l @ [CHR 0x0A]) ls)) = ls"
proof -
  have a: "\<forall>l \<in> set ls. CHR 0x0A \<notin> set l" using assms by (auto simp: list_all_iff)
  have r: "rawLines (concat (map (\<lambda>l. l @ [CHR 0x0A]) ls)) = ls"
    unfolding rawLines_def Split_lines[OF a] by (simp add: Let_def)
  have t: "takeWhile (\<lambda>l. length l < MaxScanTokenSize) ls = ls"
    using assms by (auto simp: list_all_iff takeWhile_eq_all_conv)
  have d: "map dropCR ls = ls"
    using assms by (intro map_idI) (auto simp: list_all_iff dropCR_def)
  show ?thesis by (simp add: ScanLines_def r t d)
qed

lemma Run_prepare_error:
  assumes "init L b0 = Inr b" "\<not> (RequestLogEnabled b \<and> openLogFails W)"
    "prepareQuestions (httpGet W) b = Inl e"
  shows "Run fuel L W ctx b0 = Failed e"
  using assms by (auto simp: Run_def)

text \<open>
  C8, as the code has it. The questions are the contributions of the entries, in
  the order of the entries: a literal entry contributes its name, an HTTP(S) URL
  the lines of the body that was fetched, in their order, each made fully qualified
  by \<^verbatim>\<open>dns.Fqdn\<close>, so that every question ends in a dot. The loader fails exactly
  when the fetch of some URL entry fails or answers with a status outside 200 to
  299, and then \<^verbatim>\<open>Run\<close> fails with that error. Every line the scanner returns is a
  question, the empty ones too: a body of lines that each end in a line feed, are
  shorter than the buffer of the scanner and do not end in a carriage return is
  read as exactly those lines.
\<close>

theorem prepareQuestions_entries:
  "(prepareQuestions get b = Inr qs \<longrightarrow>
      qs = concat (map (\<lambda>(i, q). entryQuestions get i q) (enumerate 0 (Queries b)))
      \<and> (\<forall>q \<in> set qs. q \<noteq> [] \<and> last q = CHR ''.''))
   \<and> ((\<exists>e. prepareQuestions get b = Inl e)
        \<longleftrightarrow> (\<exists>i < length (Queries b). entryFails get i (Queries b ! i)))
   \<and> (init L b0 = Inr b1 \<and> \<not> (RequestLogEnabled b1 \<and> openLogFails W)
        \<and> prepareQuestions (httpGet W) b1 = Inl e
       \<longrightarrow> Run fuel L W ctx b0 = Failed e)
   \<and> (list_all (\<lambda>l. CHR 0x0A \<notin> set l \<and> length l < MaxScanTokenSize
                      \<and> (l = [] \<or> last l \<noteq> CHR 0x0D)) ls
       \<longrightarrow> ScanLines (concat (map (\<lambda>l. l @ [CHR 0x0A]) ls)) = ls)"
proof (intro conjI impI)
  assume r: "prepareQuestions get b = Inr qs"
  then have q: "qs = concat (map (\<lambda>(i, q). entryQuestions get i q) (enumerate 0 (Queries b)))"
    by (simp add: prepareQuestions_def prepareQuestions_loop_Inr)
  show "qs = concat (map (\<lambda>(i, q). entryQuestions get i q) (enumerate 0 (Queries b)))"
    by (rule q)
  show "\<forall>q \<in> set qs. q \<noteq> [] \<and> last q = CHR ''.''"
    unfolding q using entryQuestions_fqdn by fastforce
next
  show "(\<exists>e. prepareQuestions get b = Inl e)
        \<longleftrightarrow> (\<exists>i < length (Queries b). entryFails get i (Queries b ! i))"
    using prepareQuestions_loop_Inl[of get 0 "Queries b" "[]"] by (simp add: prepareQuestions_def)
next
  assume "init L b0 = Inr b1 \<and> \<not> (RequestLogEnabled b1 \<and> openLogFails W)
        \<and> prepareQuestions (httpGet W) b1 = Inl e"
  then show "Run fuel L W ctx b0 = Failed e" using Run_prepare_error by blast
next
  assume "list_all (\<lambda>l. CHR 0x0A \<notin> set l \<and> length l < MaxScanTokenSize
                      \<and> (l = [] \<or> last l \<noteq> CHR 0x0D)) ls"
  then show "ScanLines (concat (map (\<lambda>l. l @ [CHR 0x0A]) ls)) = ls"
    by (rule ScanLines_lines)
qed

lemma ScanLines_namesBody: "ScanLines namesBody = [''a.com'', [], ''b.com'']"
  by (simp add: ScanLines_def rawLines_def namesBody_def MaxScanTokenSize_def dropCR_def Let_def)

theorem prepareQuestions_entries_witness:
  "prepareQuestions namesHttp
      (exampleBenchmark\<lparr>Queries := [''example.com'', ''https://example.org/names'', ''x.org.'']\<rparr>)
     = Inr [''example.com.'', ''a.com.'', ''.'', ''b.com.'', ''x.org.'']
   \<and> (\<exists>e. prepareQuestions (\<lambda>i u. Some (404, []))
              (exampleBenchmark\<lparr>Queries := [''https://example.org/names'']\<rparr>) = Inl e)
   \<and> ScanLines (concat (map (\<lambda>l. l @ [CHR 0x0A]) [''a.com'', [], ''b.com'']))
       = [''a.com'', [], ''b.com'']"
proof -
  let ?b = "exampleBenchmark\<lparr>Queries := [''example.com'', ''https://example.org/names'', ''x.org.'']\<rparr>"
  have u: "fst (isHTTPUrl ''https://example.org/names'')" "\<not> fst (isHTTPUrl ''example.com'')"
    "\<not> fst (isHTTPUrl ''x.org.'')"
    by (simp_all add: isHTTPUrl_def HasPrefix_def)
  have nf: "\<not> (\<exists>i < length (Queries ?b). entryFails namesHttp i (Queries ?b ! i))"
    by (auto simp: exampleBenchmark_def entryFails_def namesHttp_def u less_Suc_eq_0_disj
          numeral_3_eq_3)
  then have "\<not> (\<exists>e. prepareQuestions namesHttp ?b = Inl e)"
    using prepareQuestions_entries[of namesHttp ?b] by blast
  then obtain qs where qs: "prepareQuestions namesHttp ?b = Inr qs"
    by (cases "prepareQuestions namesHttp ?b") auto
  then have "qs = concat (map (\<lambda>(i, q). entryQuestions namesHttp i q) (enumerate 0 (Queries ?b)))"
    using prepareQuestions_entries[of namesHttp ?b qs] by blast
  then have a: "qs = [''example.com.'', ''a.com.'', ''.'', ''b.com.'', ''x.org.'']"
    by (simp add: exampleBenchmark_def entryQuestions_def namesHttp_def u ScanLines_namesBody
        Fqdn_def IsFqdn_def)
  have b: "\<exists>e. prepareQuestions (\<lambda>i u. Some (404, []))
              (exampleBenchmark\<lparr>Queries := [''https://example.org/names'']\<rparr>) = Inl e"
    using prepareQuestions_entries[of "\<lambda>i u. Some (404, [])"
        "exampleBenchmark\<lparr>Queries := [''https://example.org/names'']\<rparr>"]
    by (simp add: exampleBenchmark_def entryFails_def u)
  have c: "ScanLines (concat (map (\<lambda>l. l @ [CHR 0x0A]) [''a.com'', [], ''b.com'']))
       = [''a.com'', [], ''b.com'']"
    using prepareQuestions_entries[where ls="[''a.com'', [], ''b.com'']"]
    by (simp add: MaxScanTokenSize_def)
  show ?thesis using qs a b c by simp
qed

text \<open>
  C8, as it is stated, fails: it makes the non-empty lines of a body the questions,
  and the body of three lines whose second line is empty gives three questions,
  the second of them the root name, which the empty line has become.
\<close>

theorem empty_line_becomes_question:
  "ScanLines namesBody = [''a.com'', [], ''b.com'']
   \<and> prepareQuestions namesHttp (exampleBenchmark\<lparr>Queries := [''https://example.org/names'']\<rparr>)
       = Inr [''a.com.'', ''.'', ''b.com.'']"
  by (simp add: prepareQuestions_def namesHttp_def exampleBenchmark_def isHTTPUrl_def
      HasPrefix_def ScanLines_namesBody Fqdn_def IsFqdn_def)

subsection \<open>The delay parser (C6)\<close>

lemma delayUnit_cases:
  "delayUnit u \<longleftrightarrow> u = ''ms'' \<or> u = ''ns'' \<or> u = ''s'' \<or> u = ''m'' \<or> u = ''h'' \<or> u = ''d'' \<or> u = ''w''"
  by (auto simp: delayUnit_def)

lemma delayUnit_chars:
  assumes "delayUnit u"
  shows "u \<noteq> []" "\<not> isDigit (hd u)" "\<forall>c \<in> set u. \<not> isDigit c \<and> c \<noteq> CHR ''.'' \<and> c \<noteq> CHR ''-''"
  using assms by (auto simp: delayUnit_cases isDigit_def)

lemma isDigit_not_hyphen: "isDigit c \<Longrightarrow> c \<noteq> CHR ''-''"
  by (auto simp: isDigit_def)

lemma durationText_split:
  assumes "durationText x"
  obtains ds u where "x = ds @ u" "ds \<noteq> []" "list_all isDigit ds" "delayUnit u"
    "takeWhile isDigit x = ds" "dropWhile isDigit x = u"
proof -
  let ?ds = "takeWhile isDigit x" and ?u = "dropWhile isDigit x"
  have "x = ?ds @ ?u" by simp
  moreover have "?ds \<noteq> []" "delayUnit ?u" using assms by (simp_all add: durationText_def)
  moreover have "list_all isDigit ?ds" by (simp add: list_all_iff) (meson set_takeWhileD)
  ultimately show ?thesis using that by blast
qed

lemma digits_unit_take:
  assumes "list_all isDigit ds" "r = [] \<or> \<not> isDigit (hd r)"
  shows "takeWhile isDigit (ds @ r) = ds" "dropWhile isDigit (ds @ r) = r"
proof -
  have a: "\<forall>c \<in> set ds. isDigit c" using assms(1) by (simp add: list_all_iff)
  have t: "takeWhile isDigit r = []" "dropWhile isDigit r = r"
    using assms(2) by (cases r; simp)+
  show "takeWhile isDigit (ds @ r) = ds" using a t by (simp add: takeWhile_append2)
  show "dropWhile isDigit (ds @ r) = r" using a t by (simp add: dropWhile_append2)
qed

lemma durationText_no_hyphen:
  assumes "durationText x"
  shows "CHR ''-'' \<notin> set x"
proof -
  from assms obtain ds u where x: "x = ds @ u" "list_all isDigit ds" "delayUnit u"
    by (rule durationText_split)
  have "CHR ''-'' \<notin> set ds" using x(2) isDigit_not_hyphen by (auto simp: list_all_iff)
  moreover have "CHR ''-'' \<notin> set u" using delayUnit_chars(3)[OF x(3)] by auto
  ultimately show ?thesis using x(1) by simp
qed

lemma matchUnit_unit:
  assumes "delayUnit u" "rest = [] \<or> hd rest = CHR ''-''"
  shows "matchUnit (u @ rest) = Some (u, rest)"
  using assms by (cases rest) (auto simp: delayUnit_cases matchUnit_def HasPrefix_def)



lemma matchDuration_duration:
  assumes "durationText x" "rest = [] \<or> hd rest = CHR ''-''"
  shows "matchDuration (x @ rest) = Some (x, rest)"
proof -
  from assms(1) obtain ds u where x: "x = ds @ u" "ds \<noteq> []" "list_all isDigit ds" "delayUnit u"
    by (rule durationText_split)
  have nd: "u @ rest = [] \<or> \<not> isDigit (hd (u @ rest))"
    using delayUnit_chars(1,2)[OF x(4)] by simp
  have t: "takeWhile isDigit (x @ rest) = ds" "dropWhile isDigit (x @ rest) = u @ rest"
    using digits_unit_take[OF x(3) nd] x(1) by simp_all
  have "matchDuration (x @ rest)
      = (if ds = [] then None
         else (case matchUnit (u @ rest) of None \<Rightarrow> None | Some (u1, r1) \<Rightarrow> Some (ds @ u1, r1)))"
    by (simp only: matchDuration_def Let_def t)
  then show ?thesis
    using x(1,2) matchUnit_unit[OF x(4) assms(2)] by simp
qed


lemma hyphen_split:
  assumes "CHR ''-'' \<notin> set a"
  shows "takeWhile (\<lambda>c. c \<noteq> CHR ''-'') (a @ CHR ''-'' # r) = a"
    "dropWhile (\<lambda>c. c \<noteq> CHR ''-'') (a @ CHR ''-'' # r) = CHR ''-'' # r"
    "takeWhile (\<lambda>c. c \<noteq> CHR ''-'') a = a" "dropWhile (\<lambda>c. c \<noteq> CHR ''-'') a = []"
proof -
  have a: "\<forall>c \<in> set a. c \<noteq> CHR ''-''" using assms by auto
  show "takeWhile (\<lambda>c. c \<noteq> CHR ''-'') (a @ CHR ''-'' # r) = a"
    using a by (simp add: takeWhile_append2)
  show "dropWhile (\<lambda>c. c \<noteq> CHR ''-'') (a @ CHR ''-'' # r) = CHR ''-'' # r"
    using a by (simp add: dropWhile_append2)
  show "takeWhile (\<lambda>c. c \<noteq> CHR ''-'') a = a" using a by (simp add: takeWhile_eq_all_conv)
  show "dropWhile (\<lambda>c. c \<noteq> CHR ''-'') a = []" using a by simp
qed

lemma FindStringSubmatch_grammar:
  assumes "delayGrammar s"
  shows "FindStringSubmatch s =
     [s, takeWhile (\<lambda>c. c \<noteq> CHR ''-'') s,
      (if dropWhile (\<lambda>c. c \<noteq> CHR ''-'') s = [] then [] else tl (dropWhile (\<lambda>c. c \<noteq> CHR ''-'') s))]"
proof -
  let ?a = "takeWhile (\<lambda>c. c \<noteq> CHR ''-'') s" and ?r = "dropWhile (\<lambda>c. c \<noteq> CHR ''-'') s"
  have s: "s = ?a @ ?r" by simp
  have da: "durationText ?a" and dr: "?r = [] \<or> durationText (tl ?r)"
    using assms by (simp_all add: delayGrammar_def Let_def)
  have hr: "?r = [] \<or> hd ?r = CHR ''-''"
    using hd_dropWhile[of "\<lambda>c. c \<noteq> CHR ''-''" s] by auto
  have m1: "matchDuration s = Some (?a, ?r)"
    using matchDuration_duration[OF da hr] by simp
  show ?thesis
  proof (cases "?r = []")
    case True
    then show ?thesis using m1 by (simp add: FindStringSubmatch_def del: dropWhile_eq_Nil_conv)
  next
    case False
    then obtain r1 where r: "?r = CHR ''-'' # r1" using hr by (cases ?r) auto
    then have "durationText r1" using dr by simp
    then have "matchDuration r1 = Some (r1, [])"
      using matchDuration_duration[of r1 "[]"] by simp
    then show ?thesis using m1 r by (simp add: FindStringSubmatch_def del: dropWhile_eq_Nil_conv)
  qed
qed







lemma delayGrammar_single:
  assumes "durationText s"
  shows "delayGrammar s" "FindStringSubmatch s = [s, s, []]"
proof -
  note h = hyphen_split(3,4)[OF durationText_no_hyphen[OF assms]]
  show g: "delayGrammar s" using assms by (simp add: delayGrammar_def Let_def h)
  show "FindStringSubmatch s = [s, s, []]"
    by (simp only: FindStringSubmatch_grammar[OF g] h) simp
qed

lemma delayGrammar_pair:
  assumes "durationText lo" "durationText hi"
  shows "delayGrammar (lo @ ''-'' @ hi)"
    "FindStringSubmatch (lo @ ''-'' @ hi) = [lo @ ''-'' @ hi, lo, hi]"
proof -
  have h: "takeWhile (\<lambda>c. c \<noteq> CHR ''-'') (lo @ ''-'' @ hi) = lo"
       "dropWhile (\<lambda>c. c \<noteq> CHR ''-'') (lo @ ''-'' @ hi) = CHR ''-'' # hi"
    using hyphen_split(1,2)[OF durationText_no_hyphen[OF assms(1)], of hi] by simp_all
  show g: "delayGrammar (lo @ ''-'' @ hi)"
    unfolding delayGrammar_def Let_def h using assms by simp
  show "FindStringSubmatch (lo @ ''-'' @ hi) = [lo @ ''-'' @ hi, lo, hi]"
    by (simp only: FindStringSubmatch_grammar[OF g] h) simp
qed

lemma delayGrammar_iff:
  "delayGrammar s \<longleftrightarrow>
     durationText s \<or> (\<exists>lo hi. s = lo @ ''-'' @ hi \<and> durationText lo \<and> durationText hi)"
proof
  assume g: "delayGrammar s"
  let ?a = "takeWhile (\<lambda>c. c \<noteq> CHR ''-'') s" and ?r = "dropWhile (\<lambda>c. c \<noteq> CHR ''-'') s"
  have da: "durationText ?a" and dr: "?r = [] \<or> durationText (tl ?r)"
    using g by (simp_all add: delayGrammar_def Let_def)
  show "durationText s \<or> (\<exists>lo hi. s = lo @ ''-'' @ hi \<and> durationText lo \<and> durationText hi)"
  proof (cases "?r = []")
    case True
    then have "\<forall>c \<in> set s. c \<noteq> CHR ''-''" by simp
    then have as: "?a = s" by simp
    have "durationText s" using da unfolding as .
    then show ?thesis by simp
  next
    case False
    then have "hd ?r = CHR ''-''" using hd_dropWhile[of "\<lambda>c. c \<noteq> CHR ''-''" s] by auto
    then have "?r = CHR ''-'' # tl ?r" using False by (cases ?r) auto
    then have "s = ?a @ ''-'' @ tl ?r" by (metis append_Cons append_Nil takeWhile_dropWhile_id)
    then show ?thesis using da dr False by blast
  qed
next
  assume "durationText s \<or> (\<exists>lo hi. s = lo @ ''-'' @ hi \<and> durationText lo \<and> durationText hi)"
  then show "delayGrammar s" using delayGrammar_single(1) delayGrammar_pair(1) by blast
qed







lemmas delay_eval = nanos_def durationText_def knownUnit_def isDigit_def decimalValue_def
  digitVal_def unitMap_def delayUnit_def maxDuration_def




text \<open>
  The suffixes d and w are in the regular expression, and \<^verbatim>\<open>time.ParseDuration\<close>
  knows neither.
\<close>

lemma delay_in_days_rejected:
  "delayGrammar ''1d''
   \<and> parseRequestDelay (exampleBenchmark\<lparr>RequestDelay := ''1d''\<rparr>) =
       Inl (ErrDurationUnknownUnit ''1d'')"
proof -
  have d: "durationText ''1d''" by (simp add: delay_eval)
  have m: "FindStringSubmatch ''1d'' = [''1d'', ''1d'', []]" by (rule delayGrammar_single(2)[OF d])
  have p: "ParseDuration ''1d'' = Inl (ErrDurationUnknownUnit ''1d'')"
    by (simp add: ParseDuration_def isDigit_def digitVal_def unitMap_def Let_def)
  have "parseRequestDelay (exampleBenchmark\<lparr>RequestDelay := ''1d''\<rparr>) =
       Inl (ErrDurationUnknownUnit ''1d'')"
    by (simp add: parseRequestDelay_def m p Let_def)
  then show ?thesis using delayGrammar_single(1)[OF d] by simp
qed

end
